theory Spec2Isabelle
  imports Main
begin

section \<open>Errors\<close>

text \<open>
  Go errors are values. \<open>ErrNotExist\<close> is the error for which \<open>os.IsNotExist\<close> answers
  true; \<open>ErrOther\<close> stands for any other error of a collaborator, with its message;
  \<open>Wrapped\<close> is \<open>errors.Wrap\<close>/\<open>errors.Wrapf\<close>, \<open>Errorf\<close> is \<open>errors.Errorf\<close>,
  \<open>Aggregate\<close> is the non-nil result of \<open>field.ErrorList.ToAggregate\<close>, and \<open>Panic\<close> is a
  run-time panic (a nil pointer dereference, a missing parent). \<open>SchemaMismatchError\<close>
  is the merge failure of the specification (section 7).
\<close>

datatype field_error =
    Required string string
  | Invalid string string string

datatype error =
    ErrNotExist
  | ErrOther string
  | Wrapped string error
  | Errorf string
  | Aggregate "field_error list"
  | Panic string
  | SchemaMismatchError




section \<open>Package config: the appliance-config.yaml asset\<close>







definition ReleaseArchitecturePPC64le :: string where
  "ReleaseArchitecturePPC64le = ''ppc64le''"


text \<open>
  \<open>types.ApplianceConfig\<close> is declared outside the files at hand; the record has the
  fields that \<open>Load\<close>, \<open>validateConfig\<close> and the install ignition read or write.
  A Go pointer field (\<open>*string\<close>) is an \<open>option\<close>.
\<close>

record ReleaseImage =
  Version :: string
  Channel :: "string option"
  CpuArchitecture :: "string option"
  URL :: "string option"

record types_ApplianceConfig =
  APIVersion :: string
  OcpRelease :: ReleaseImage
  PullSecret :: string
  SshKey :: "string option"

record asset_File =
  Filename :: string
  Data :: string

record ApplianceConfig =
  File :: "asset_File option"
  Config :: "types_ApplianceConfig option"
  Template :: string

definition ApplianceConfig_Name :: string where
  "ApplianceConfig_Name = ''Appliance Config''"

text \<open>Asset identities, as far as the files at hand name them.\<close>

datatype asset_id =
    EnvConfigId
  | ApplianceConfigId
  | RegistriesConfId
  | InstallIgnitionId
  | ApplianceDiskImageId
  | OtherAssetId string

definition ApplianceConfig_Dependencies :: "asset_id list" where
  "ApplianceConfig_Dependencies = []"

definition tab :: string where
  "tab = [CHR 0x09]"

definition nl :: string where
  "nl = [CHR 0x0A]"

definition applianceConfigTemplate :: string where
  "applianceConfigTemplate =
     ''#'' @ nl @
     ''# Note: This is a sample ApplianceConfig file showing'' @ nl @
     ''# which fields are available to aid you in creating your'' @ nl @
     ''# own appliance-config.yaml file.'' @ nl @
     ''#'' @ nl @
     ''apiVersion: v1beta1'' @ nl @
     ''kind: ApplianceConfig'' @ nl @
     ''ocpRelease:'' @ nl @
     tab @ ''# OCP release version in major.minor or major.minor.patch format'' @ nl @
     tab @ ''# (in case of major.minor - latest patch version will be used)'' @ nl @
     tab @ ''version: ocp-release-version '' @ nl @
     tab @ ''# OCP release update channel: stable|fast|eus|candidate'' @ nl @
     tab @ ''# Default: stable'' @ nl @
     tab @ ''# [Optional] '' @ nl @
     tab @ ''channel: ocp-release-channel'' @ nl @
     tab @ ''# OCP release CPU architecture: x86_64|aarch64|ppc64le'' @ nl @
     tab @ ''# Default: x86_64'' @ nl @
     tab @ ''# [Optional]'' @ nl @
     tab @ ''cpuArchitecture: cpu-architecture'' @ nl @
     ''# Virtual size of the appliance disk image'' @ nl @
     ''diskSizeGB: disk-size'' @ nl @
     ''# PullSecret required for mirroring the OCP release payload'' @ nl @
     ''pullSecret: pull-secret'' @ nl @
     ''# Public SSH key for accessing the appliance'' @ nl @
     ''# [Optional]'' @ nl @
     ''sshKey: ssh-key'' @ nl"

text \<open>
  \<open>Generate\<close> ignores its parents, stores the sample template in the receiver and
  returns nil. The model returns the error (none) and the updated receiver.
\<close>

definition ApplianceConfig_Generate ::
  "'p \<Rightarrow> ApplianceConfig \<Rightarrow> error option \<times> ApplianceConfig" where
  "ApplianceConfig_Generate dependencies a =
     (None, a\<lparr>Template := applianceConfigTemplate\<rparr>)"









section \<open>Package ignition: the install ignition asset\<close>

definition InstallIgnitionPath :: string where
  "InstallIgnitionPath = ''ignition/install/config.ign''"

definition baseIgnitionPath :: string where
  "baseIgnitionPath = ''ignition/base/config.ign''"

definition bootDevice :: string where
  "bootDevice = ''/dev/disk/by-partlabel/boot''"

definition bootMountPath :: string where
  "bootMountPath = ''/boot''"

definition installRegistryDataPath :: string where
  "installRegistryDataPath = ''/mnt/agentdata/oc-mirror/install''"

definition installServices :: "string list" where
  "installServices = [''start-local-registry.service'']"

definition installScripts :: "string list" where
  "installScripts = [''start-local-registry.sh'']"

text \<open>
  The ignition config (\<open>igntypes.Config\<close>), with the fields the asset touches:
  \<open>Ignition.Version\<close>, \<open>Passwd.Users\<close>, \<open>Storage.Files\<close>, \<open>Storage.Filesystems\<close> and
  \<open>Systemd.Units\<close>. A nil slice is the empty list. A file carries what
  \<open>FileFromBytes\<close> is given: path, owner, mode and contents.
\<close>

record PasswdUser =
  user_Name :: string
  SSHAuthorizedKeys :: "string list"

record ign_File =
  file_Path :: string
  file_Owner :: string
  file_Mode :: nat
  file_Contents :: string

record Filesystem =
  fs_Device :: string
  fs_Format :: "string option"
  fs_Path :: "string option"

record Unit =
  unit_Name :: string
  unit_Contents :: "string option"
  unit_Enabled :: "bool option"

record ign_Config =
  Ignition_Version :: string
  Passwd_Users :: "PasswdUser list"
  Storage_Files :: "ign_File list"
  Storage_Filesystems :: "Filesystem list"
  Systemd_Units :: "Unit list"

record InstallIgnition =
  IConfig :: ign_Config

record EnvConfig =
  AssetsDir :: string
  DebugBootstrap :: bool
  DebugInstall :: bool
  TempDir :: string

record RegistriesConf =
  FileData :: string

definition InstallIgnition_Name :: string where
  "InstallIgnition_Name = ''Install ignition''"

definition InstallIgnition_Dependencies :: "asset_id list" where
  "InstallIgnition_Dependencies = [EnvConfigId, ApplianceConfigId, RegistriesConfId]"

text \<open>
  \<open>asset.Parents\<close> maps an asset type to the resolved asset. \<open>Get\<close> copies the parent
  of each requested type into the argument and panics when the map has none.
\<close>

datatype asset_val =
    EnvConfigV EnvConfig
  | ApplianceConfigV ApplianceConfig
  | RegistriesConfV RegistriesConf
  | OtherAssetV string

type_synonym Parents = "asset_id \<Rightarrow> asset_val option"

definition Parents_Get :: "Parents \<Rightarrow> (EnvConfig \<times> ApplianceConfig \<times> RegistriesConf) option" where
  "Parents_Get dependencies =
     (case dependencies EnvConfigId of
        Some (EnvConfigV envConfig) \<Rightarrow>
          (case dependencies ApplianceConfigId of
             Some (ApplianceConfigV applianceConfig) \<Rightarrow>
               (case dependencies RegistriesConfId of
                  Some (RegistriesConfV registryConf) \<Rightarrow>
                    Some (envConfig, applianceConfig, registryConf)
                | _ \<Rightarrow> None)
           | _ \<Rightarrow> None)
      | _ \<Rightarrow> None)"

definition FileFromBytes :: "string \<Rightarrow> string \<Rightarrow> nat \<Rightarrow> string \<Rightarrow> ign_File" where
  "FileFromBytes path username mode contents =
     \<lparr>file_Path = path, file_Owner = username, file_Mode = mode, file_Contents = contents\<rparr>"

text \<open>
  What \<open>Generate\<close> calls outside the files at hand is a parameter. The type \<open>'d\<close> is
  the template data.

  Modelled from the spec: \<open>bootstrap.AddSystemdUnits\<close> and \<open>bootstrap.AddStorageFiles\<close>
  are missing. A node produces the units and files of its fragment with the template
  renderer (sections 2 and 6), so each is a collaborator that either fails or yields
  the entries it adds to the config, which the model appends.

  The other fields are the constants \<open>igntypes.MaxVersion\<close>, \<open>registriesConfFilePath\<close>,
  \<open>templates.UserCfgTemplateFile\<close> and \<open>templates.UserCfgFilePath\<close>, the template data
  constructors, \<open>templates.RenderTemplateFile\<close>, \<open>templates.GetFilePathByTemplate\<close> and
  \<open>os.ReadFile\<close> (the file system as it is when Generate reads it).
\<close>

record 'd ignition_env =
  MaxVersion :: string
  registriesConfFilePath :: string
  UserCfgTemplateFile :: string
  UserCfgFilePath :: string
  AddSystemdUnits :: "string \<Rightarrow> string list \<Rightarrow> error + Unit list"
  AddStorageFiles :: "string \<Rightarrow> string \<Rightarrow> 'd \<Rightarrow> error + ign_File list"
  GetInstallIgnitionTemplateData :: "string \<Rightarrow> 'd"
  GetUserCfgTemplateData_Recovery :: 'd
  RenderTemplateFile :: "string \<Rightarrow> 'd \<Rightarrow> string \<Rightarrow> error option"
  GetFilePathByTemplate :: "string \<Rightarrow> string \<Rightarrow> string"
  ReadFile :: "string \<Rightarrow> error + string"

text \<open>File modes are written in decimal: \<open>0644\<close> is 420 and \<open>0600\<close> is 384.\<close>

text \<open>The debug user: added when \<open>DebugInstall\<close> is set; reading \<open>SshKey\<close> through a nil
  \<open>Config\<close> pointer panics.\<close>

definition addDebugUser :: "EnvConfig \<Rightarrow> ApplianceConfig \<Rightarrow> ign_Config \<Rightarrow> error + ign_Config" where
  "addDebugUser envConfig applianceConfig c =
     (if DebugInstall envConfig then
        (case Config applianceConfig of
           None \<Rightarrow> Inl (Panic ''invalid memory address or nil pointer dereference'')
         | Some ac \<Rightarrow>
             let passwdUser0 = \<lparr>user_Name = ''core'', SSHAuthorizedKeys = []\<rparr>;
                 passwdUser = (case SshKey ac of
                                 Some k \<Rightarrow> passwdUser0\<lparr>SSHAuthorizedKeys := [k]\<rparr>
                               | None \<Rightarrow> passwdUser0)
             in Inr (c\<lparr>Passwd_Users := Passwd_Users c @ [passwdUser]\<rparr>))
      else Inr c)"

text \<open>The loop over \<open>installScripts\<close>; it returns at the first error, with the config
  as the scripts before it left it.\<close>

fun addInstallScripts ::
  "'d ignition_env \<Rightarrow> 'd \<Rightarrow> string list \<Rightarrow> ign_Config \<Rightarrow> error option \<times> ign_Config" where
  "addInstallScripts env templateData [] c = (None, c)"
| "addInstallScripts env templateData (script # scripts) c =
     (case AddStorageFiles env (''/usr/local/bin/'' @ script)
             (''scripts/bin/'' @ script @ ''.template'') templateData of
        Inl err \<Rightarrow> (Some err, c)
      | Inr fs \<Rightarrow>
          addInstallScripts env templateData scripts
            (c\<lparr>Storage_Files := Storage_Files c @ fs\<rparr>))"

definition addRecoveryGrubMenuItem ::
  "'d ignition_env \<Rightarrow> string \<Rightarrow> ign_Config \<Rightarrow> error option \<times> ign_Config" where
  "addRecoveryGrubMenuItem env tempDir c =
     (case RenderTemplateFile env (UserCfgTemplateFile env)
             (GetUserCfgTemplateData_Recovery env) tempDir of
        Some err \<Rightarrow> (Some err, c)
      | None \<Rightarrow>
          let cfgFilePath = GetFilePathByTemplate env (UserCfgTemplateFile env) tempDir
          in (case ReadFile env cfgFilePath of
                Inl err \<Rightarrow> (Some err, c)
              | Inr cfgFileBytes \<Rightarrow>
                  let cfgFile = FileFromBytes (UserCfgFilePath env) ''root'' 420 cfgFileBytes;
                      c1 = c\<lparr>Storage_Files := Storage_Files c @ [cfgFile]\<rparr>;
                      c2 = c1\<lparr>Storage_Filesystems := Storage_Filesystems c1 @
                             [\<lparr>fs_Device = bootDevice, fs_Format = Some ''ext4'',
                               fs_Path = Some bootMountPath\<rparr>]\<rparr>
                  in (None, c2)))"

text \<open>
  \<open>Generate\<close> returns the error and the receiver as the call leaves it: on an error
  return the receiver holds the config built so far.
\<close>

definition InstallIgnition_Generate ::
  "'d ignition_env \<Rightarrow> Parents \<Rightarrow> InstallIgnition \<Rightarrow> error option \<times> InstallIgnition" where
  "InstallIgnition_Generate env dependencies i =
     (case Parents_Get dependencies of
        None \<Rightarrow> (Some (Panic ''reflect: call of reflect.Value.Set on zero Value''), i)
      | Some (envConfig, applianceConfig, registryConf) \<Rightarrow>
          let c0 = \<lparr>Ignition_Version = MaxVersion env, Passwd_Users = [], Storage_Files = [],
                    Storage_Filesystems = [], Systemd_Units = []\<rparr>
          in (case addDebugUser envConfig applianceConfig c0 of
                Inl err \<Rightarrow> (Some err, i\<lparr>IConfig := c0\<rparr>)
              | Inr c1 \<Rightarrow>
                  (case AddSystemdUnits env ''services'' installServices of
                     Inl err \<Rightarrow> (Some err, i\<lparr>IConfig := c1\<rparr>)
                   | Inr us \<Rightarrow>
                       let c2 = c1\<lparr>Systemd_Units := Systemd_Units c1 @ us\<rparr>;
                           templateData = GetInstallIgnitionTemplateData env installRegistryDataPath
                       in (case addInstallScripts env templateData installScripts c2 of
                             (Some err, c3) \<Rightarrow> (Some err, i\<lparr>IConfig := c3\<rparr>)
                           | (None, c3) \<Rightarrow>
                               let registriesFile = FileFromBytes (registriesConfFilePath env)
                                                      ''root'' 384 (FileData registryConf);
                                   c4 = c3\<lparr>Storage_Files := Storage_Files c3 @ [registriesFile]\<rparr>
                               in (case addRecoveryGrubMenuItem env (TempDir envConfig) c4 of
                                     (Some err, c5) \<Rightarrow> (Some err, i\<lparr>IConfig := c5\<rparr>)
                                   | (None, c5) \<Rightarrow> (None, i\<lparr>IConfig := c5\<rparr>))))))"

text \<open>
  \<open>PersistToFile\<close>. Its collaborators (\<open>ParseIgnitionFile\<close>, \<open>MergeIgnitionConfig\<close> and
  \<open>WriteIgnitionFile\<close> of the ignition helper, \<open>os.MkdirAll\<close>, \<open>filepath.Join\<close> and
  \<open>filepath.Dir\<close>) are parameters. The result is the returned error and the requests
  made to the file system, in order.
\<close>

datatype fs_effect =
    MkdirAllCall string
  | WriteIgnitionFileCall string ign_Config

record persist_env =
  ParseIgnitionFile :: "string \<Rightarrow> error + ign_Config"
  MergeIgnitionConfig :: "ign_Config \<Rightarrow> ign_Config \<Rightarrow> error + ign_Config"
  MkdirAll :: "string \<Rightarrow> error option"
  WriteIgnitionFile :: "string \<Rightarrow> ign_Config \<Rightarrow> error option"
  filepath_Join :: "string \<Rightarrow> string \<Rightarrow> string"
  filepath_Dir :: "string \<Rightarrow> string"

definition writeConfig :: "persist_env \<Rightarrow> string \<Rightarrow> ign_Config \<Rightarrow> error option \<times> fs_effect list" where
  "writeConfig env directory config =
     (let configPath = filepath_Join env directory InstallIgnitionPath
      in (case MkdirAll env (filepath_Dir env configPath) of
            Some err \<Rightarrow> (Some err, [MkdirAllCall (filepath_Dir env configPath)])
          | None \<Rightarrow>
              (WriteIgnitionFile env configPath config,
               [MkdirAllCall (filepath_Dir env configPath),
                WriteIgnitionFileCall configPath config])))"

definition PersistToFile ::
  "persist_env \<Rightarrow> InstallIgnition \<Rightarrow> string \<Rightarrow> error option \<times> fs_effect list" where
  "PersistToFile env i directory =
     (let baseConfigPath = filepath_Join env directory baseIgnitionPath
      in (case ParseIgnitionFile env baseConfigPath of
            Inr baseConfig \<Rightarrow>
              (case MergeIgnitionConfig env baseConfig (IConfig i) of
                 Inl err \<Rightarrow> (Some err, [])
               | Inr config \<Rightarrow> writeConfig env directory config)
          | Inl parseErr \<Rightarrow> writeConfig env directory (IConfig i)))"



section \<open>The merge engine\<close>

text \<open>
  Modelled from the spec: the merge (\<open>MergeIgnitionConfig\<close> of the ignition helper) is
  missing from the files at hand; this is section 4.2. A fragment has four ordered
  collections, keyed by path, device, unit name and user name. Per collection: a base
  entry whose key the overlay lacks is kept, a base entry whose key the overlay has is
  replaced by the overlay entry at the same position, and the overlay entries whose
  key the base lacks follow in their order. The merge fails with SchemaMismatchError
  only when the fragments are structurally incompatible; what that means is left open
  by the specification and is the parameter \<open>compatible\<close>.
\<close>

record BootFragment =
  Files :: "ign_File list"
  Filesystems :: "Filesystem list"
  SystemdUnits :: "Unit list"
  Users :: "PasswdUser list"

definition merge_entries :: "('e \<Rightarrow> 'k) \<Rightarrow> 'e list \<Rightarrow> 'e list \<Rightarrow> 'e list" where
  "merge_entries key base overlay =
     map (\<lambda>b. case find (\<lambda>e. key e = key b) overlay of Some e \<Rightarrow> e | None \<Rightarrow> b) base
     @ filter (\<lambda>e. key e \<notin> set (map key base)) overlay"

definition Merge ::
  "(BootFragment \<Rightarrow> BootFragment \<Rightarrow> bool) \<Rightarrow> BootFragment \<Rightarrow> BootFragment \<Rightarrow> error + BootFragment" where
  "Merge compatible base overlay =
     (if \<not> compatible base overlay then Inl SchemaMismatchError
      else Inr \<lparr>Files = merge_entries file_Path (Files base) (Files overlay),
                Filesystems = merge_entries fs_Device (Filesystems base) (Filesystems overlay),
                SystemdUnits = merge_entries unit_Name (SystemdUnits base) (SystemdUnits overlay),
                Users = merge_entries user_Name (Users base) (Users overlay)\<rparr>)"

text \<open>
  The policy in the words of the claim, by position: the merged list is as long as the
  base plus the overlay-only entries; at each base position stands the base entry when
  the overlay lacks its key and the overlay entry with that key otherwise; and after
  the base positions come the overlay-only entries.
\<close>

definition override_merged :: "('e \<Rightarrow> 'k) \<Rightarrow> 'e list \<Rightarrow> 'e list \<Rightarrow> 'e list \<Rightarrow> bool" where
  "override_merged key base overlay merged \<longleftrightarrow>
     length merged = length base + length (filter (\<lambda>e. key e \<notin> set (map key base)) overlay)
   \<and> (\<forall>i < length base.
         (key (base ! i) \<notin> set (map key overlay) \<longrightarrow> merged ! i = base ! i)
       \<and> (\<forall>e \<in> set overlay. key e = key (base ! i) \<longrightarrow> merged ! i = e))
   \<and> drop (length base) merged = filter (\<lambda>e. key e \<notin> set (map key base)) overlay"

text \<open>The example of section 8: files written as a path and a number.\<close>

definition mkFile :: "string \<Rightarrow> nat \<Rightarrow> ign_File" where
  "mkFile p n = \<lparr>file_Path = p, file_Owner = [], file_Mode = n, file_Contents = []\<rparr>"

definition filesFragment :: "ign_File list \<Rightarrow> BootFragment" where
  "filesFragment fs = \<lparr>Files = fs, Filesystems = [], SystemdUnits = [], Users = []\<rparr>"

definition always_compatible :: "BootFragment \<Rightarrow> BootFragment \<Rightarrow> bool" where
  "always_compatible b e = True"

section \<open>Sample inputs\<close>

text \<open>Concrete collaborators and assets on which the properties below are evaluated.
  Mode \<open>0555\<close> is 365.\<close>

definition sample_ignition_env :: "string ignition_env" where
  "sample_ignition_env =
     \<lparr>MaxVersion = ''3.2.0'',
      registriesConfFilePath = ''/etc/containers/registries.conf'',
      UserCfgTemplateFile = ''user.cfg.template'',
      UserCfgFilePath = ''/etc/assisted/user.cfg'',
      AddSystemdUnits = (\<lambda>uri enabled.
         Inr (map (\<lambda>n. \<lparr>unit_Name = n, unit_Contents = Some ''[Unit]'',
                          unit_Enabled = Some True\<rparr>) enabled)),
      AddStorageFiles = (\<lambda>base uri d. Inr [FileFromBytes base ''root'' 365 d]),
      GetInstallIgnitionTemplateData = (\<lambda>p. p),
      GetUserCfgTemplateData_Recovery = ''recovery'',
      RenderTemplateFile = (\<lambda>t d dir. None),
      GetFilePathByTemplate = (\<lambda>t dir. dir @ ''/'' @ t),
      ReadFile = (\<lambda>p. Inr ''menuentry'')\<rparr>"

definition sample_EnvConfig :: EnvConfig where
  "sample_EnvConfig =
     \<lparr>AssetsDir = ''assets'', DebugBootstrap = False, DebugInstall = True, TempDir = ''/tmp''\<rparr>"

definition sample_ApplianceConfig :: ApplianceConfig where
  "sample_ApplianceConfig =
     \<lparr>File = None,
      Config = Some \<lparr>APIVersion = ''v1beta1'',
                     OcpRelease = \<lparr>Version = ''4.14.1'', Channel = None,
                                   CpuArchitecture = Some ''x86_64'', URL = Some ''img''\<rparr>,
                     PullSecret = ''ps'', SshKey = Some ''ssh-rsa AAAA''\<rparr>,
      Template = []\<rparr>"

definition sample_RegistriesConf :: RegistriesConf where
  "sample_RegistriesConf = \<lparr>FileData = ''registries''\<rparr>"

definition sample_parents :: Parents where
  "sample_parents =
     [EnvConfigId \<mapsto> EnvConfigV sample_EnvConfig,
      ApplianceConfigId \<mapsto> ApplianceConfigV sample_ApplianceConfig,
      RegistriesConfId \<mapsto> RegistriesConfV sample_RegistriesConf]"

definition sample_parents_more :: Parents where
  "sample_parents_more = sample_parents(OtherAssetId ''x'' \<mapsto> OtherAssetV ''y'')"

definition empty_ign_Config :: ign_Config where
  "empty_ign_Config = \<lparr>Ignition_Version = [], Passwd_Users = [], Storage_Files = [],
                        Storage_Filesystems = [], Systemd_Units = []\<rparr>"

definition sample_generated :: ign_Config where
  "sample_generated =
     \<lparr>Ignition_Version = ''3.2.0'',
      Passwd_Users = [\<lparr>user_Name = ''core'', SSHAuthorizedKeys = [''ssh-rsa AAAA'']\<rparr>],
      Storage_Files =
        [FileFromBytes ''/usr/local/bin/start-local-registry.sh'' ''root'' 365
           ''/mnt/agentdata/oc-mirror/install'',
         FileFromBytes ''/etc/containers/registries.conf'' ''root'' 384 ''registries'',
         FileFromBytes ''/etc/assisted/user.cfg'' ''root'' 420 ''menuentry''],
      Storage_Filesystems =
        [\<lparr>fs_Device = ''/dev/disk/by-partlabel/boot'', fs_Format = Some ''ext4'',
          fs_Path = Some ''/boot''\<rparr>],
      Systemd_Units =
        [\<lparr>unit_Name = ''start-local-registry.service'', unit_Contents = Some ''[Unit]'',
          unit_Enabled = Some True\<rparr>]\<rparr>"

definition sample_base :: ign_Config where
  "sample_base =
     \<lparr>Ignition_Version = ''3.2.0'', Passwd_Users = [],
      Storage_Files = [FileFromBytes ''/etc/containers/registries.conf'' ''root'' 384 ''old'',
                       FileFromBytes ''/etc/motd'' ''root'' 420 ''hello''],
      Storage_Filesystems = [], Systemd_Units = []\<rparr>"

definition sample_merge :: "ign_Config \<Rightarrow> ign_Config \<Rightarrow> error + ign_Config" where
  "sample_merge b c =
     Inr (c\<lparr>Storage_Files := merge_entries file_Path (Storage_Files b) (Storage_Files c)\<rparr>)"

definition sample_join :: "string \<Rightarrow> string \<Rightarrow> string" where
  "sample_join d p = d @ ''/'' @ p"

definition sample_dir :: "string \<Rightarrow> string" where
  "sample_dir p = (if p = ''assets/ignition/install/config.ign'' then ''assets/ignition/install'' else p)"

definition based_persist_env :: persist_env where
  "based_persist_env =
     \<lparr>ParseIgnitionFile = (\<lambda>p. if p = ''assets/ignition/base/config.ign''
                                 then Inr sample_base else Inl ErrNotExist),
      MergeIgnitionConfig = sample_merge,
      MkdirAll = (\<lambda>p. None),
      WriteIgnitionFile = (\<lambda>p c. None),
      filepath_Join = sample_join,
      filepath_Dir = sample_dir\<rparr>"

definition fresh_persist_env :: persist_env where
  "fresh_persist_env = based_persist_env\<lparr>ParseIgnitionFile := (\<lambda>p. Inl ErrNotExist)\<rparr>"



definition sample_merged :: ign_Config where
  "sample_merged =
     sample_generated\<lparr>Storage_Files :=
        [FileFromBytes ''/etc/containers/registries.conf'' ''root'' 384 ''registries'',
         FileFromBytes ''/etc/motd'' ''root'' 420 ''hello'',
         FileFromBytes ''/usr/local/bin/start-local-registry.sh'' ''root'' 365
           ''/mnt/agentdata/oc-mirror/install'',
         FileFromBytes ''/etc/assisted/user.cfg'' ''root'' 420 ''menuentry'']\<rparr>"

section \<open>The asset orchestrator\<close>

text \<open>
  Modelled from the spec: the asset store (\<open>assetstore.NewStore\<close> and its \<open>Fetch\<close>) is
  missing from the files at hand; this is the algorithm of section 4.1. A node is
  Unvisited, InProgress, Generated with its artifact, or Failed. The store holds the mark
  of every node and, for the properties below, the list of nodes whose generation
  function was invoked, in order. The graph gives each node its declared dependencies
  and its generation function, which receives the artifacts of the dependencies and
  may fail with a reason.
\<close>

datatype 'a node_state = Unvisited | InProgress | Generated 'a | Failed

text \<open>The error kinds of section 7; a DependencyError wraps the failure of the dependency.\<close>

datatype 'n fetch_error =
    CycleError 'n
  | DependencyError 'n "'n fetch_error"
  | GenerationError 'n string

record ('n, 'a) AssetGraph =
  dependencies_of :: "'n \<Rightarrow> 'n list"
  generate :: "'n \<Rightarrow> 'a list \<Rightarrow> string + 'a"

record ('n, 'a) Orchestrator =
  marks :: "'n \<Rightarrow> 'a node_state"
  invoked :: "'n list"

text \<open>A store in which nothing has been requested yet.\<close>

definition NewStore :: "('n, 'a) Orchestrator" where
  "NewStore = \<lparr>marks = (\<lambda>x. Unvisited), invoked = []\<rparr>"

text \<open>
  \<open>Fetch\<close>, steps 1 to 6 of section 4.1, and \<open>FetchAll\<close>, step 4: the dependencies in
  declared order, stopping at the first failure. The recursion follows the dependency
  graph, so the functions take fuel: each nested \<open>Fetch\<close> uses one unit, and \<open>None\<close> means
  the fuel ran out. A dependency failure leaves the marks as they are.
\<close>

fun Fetch :: "nat \<Rightarrow> ('n, 'a) AssetGraph \<Rightarrow> ('n, 'a) Orchestrator \<Rightarrow> 'n
                \<Rightarrow> (('n fetch_error + 'a) \<times> ('n, 'a) Orchestrator) option"
and FetchAll :: "nat \<Rightarrow> ('n, 'a) AssetGraph \<Rightarrow> ('n, 'a) Orchestrator \<Rightarrow> 'n list
                \<Rightarrow> (('n fetch_error + 'a list) \<times> ('n, 'a) Orchestrator) option" where
  "Fetch 0 g s target = None"
| "Fetch (Suc k) g s target =
     (case marks s target of
        Generated a \<Rightarrow> Some (Inr a, s)
      | InProgress \<Rightarrow> Some (Inl (CycleError target), s)
      | _ \<Rightarrow>
          (case FetchAll k g (s\<lparr>marks := (marks s)(target := InProgress)\<rparr>)
                  (dependencies_of g target) of
             None \<Rightarrow> None
           | Some (Inl e, s1) \<Rightarrow> Some (Inl (DependencyError target e), s1)
           | Some (Inr artifacts, s1) \<Rightarrow>
               (case generate g target artifacts of
                  Inl why \<Rightarrow>
                    Some (Inl (GenerationError target why),
                          s1\<lparr>marks := (marks s1)(target := Failed),
                             invoked := invoked s1 @ [target]\<rparr>)
                | Inr a \<Rightarrow>
                    Some (Inr a,
                          s1\<lparr>marks := (marks s1)(target := Generated a),
                             invoked := invoked s1 @ [target]\<rparr>))))"
| "FetchAll k g s [] = Some (Inr [], s)"
| "FetchAll k g s (d # ds) =
     (case Fetch k g s d of
        None \<Rightarrow> None
      | Some (Inl e, s1) \<Rightarrow> Some (Inl e, s1)
      | Some (Inr a, s1) \<Rightarrow>
          (case FetchAll k g s1 ds of
             None \<Rightarrow> None
           | Some (Inl e, s2) \<Rightarrow> Some (Inl e, s2)
           | Some (Inr as, s2) \<Rightarrow> Some (Inr (a # as), s2)))"

text \<open>The failure at the bottom of a chain of DependencyErrors.\<close>

fun root_cause :: "'n fetch_error \<Rightarrow> 'n fetch_error" where
  "root_cause (DependencyError n e) = root_cause e"
| "root_cause e = e"

text \<open>
  The requests of one run, in order. Both callers in \<open>build.go\<close> end the process at the
  first failure (\<open>logrus.Fatal\<close>), so the run stops there.
\<close>

fun FetchEach :: "nat \<Rightarrow> ('n, 'a) AssetGraph \<Rightarrow> ('n, 'a) Orchestrator \<Rightarrow> 'n list
                \<Rightarrow> ('n fetch_error option \<times> ('n, 'a) Orchestrator) option" where
  "FetchEach k g s [] = Some (None, s)"
| "FetchEach k g s (t # ts) =
     (case Fetch k g s t of
        None \<Rightarrow> None
      | Some (Inl e, s1) \<Rightarrow> Some (Some e, s1)
      | Some (Inr a, s1) \<Rightarrow> FetchEach k g s1 ts)"

text \<open>
  What a call may change: InProgress and Generated marks stay, and the invocation list
  only grows (\<open>evolves\<close>); on success every mark that changed went from Unvisited or
  Failed to Generated (\<open>settles\<close>).
\<close>

definition evolves :: "('n, 'a) Orchestrator \<Rightarrow> ('n, 'a) Orchestrator \<Rightarrow> bool" where
  "evolves s s1 \<longleftrightarrow>
     (\<forall>x. marks s x = InProgress \<longrightarrow> marks s1 x = InProgress)
   \<and> (\<forall>x a. marks s x = Generated a \<longrightarrow> marks s1 x = Generated a)
   \<and> (\<exists>l. invoked s1 = invoked s @ l)"

definition settles :: "('n, 'a) Orchestrator \<Rightarrow> ('n, 'a) Orchestrator \<Rightarrow> bool" where
  "settles s s1 \<longleftrightarrow>
     (\<forall>x. marks s1 x = marks s x
          \<or> ((marks s x = Unvisited \<or> marks s x = Failed) \<and> (\<exists>a. marks s1 x = Generated a)))"

text \<open>Invariants: no node was invoked twice and every invoked node is Generated
  (\<open>log_ok\<close>); a Generated node has Generated dependencies and lies on no cycle, and no
  invoked node lies on a cycle (\<open>sound\<close>).\<close>

definition log_ok :: "('n, 'a) Orchestrator \<Rightarrow> bool" where
  "log_ok s \<longleftrightarrow>
     distinct (invoked s) \<and> (\<forall>x \<in> set (invoked s). \<exists>a. marks s x = Generated a)"

definition dep_rel :: "('n, 'a) AssetGraph \<Rightarrow> ('n \<times> 'n) set" where
  "dep_rel g = {(x, d). d \<in> set (dependencies_of g x)}"

definition on_cycle :: "('n, 'a) AssetGraph \<Rightarrow> 'n \<Rightarrow> bool" where
  "on_cycle g x \<longleftrightarrow> (x, x) \<in> (dep_rel g)\<^sup>+"

definition sound :: "('n, 'a) AssetGraph \<Rightarrow> ('n, 'a) Orchestrator \<Rightarrow> bool" where
  "sound g s \<longleftrightarrow>
     (\<forall>x a. marks s x = Generated a \<longrightarrow>
        \<not> on_cycle g x \<and> (\<forall>d \<in> set (dependencies_of g x). \<exists>b. marks s d = Generated b))
   \<and> (\<forall>x \<in> set (invoked s). \<not> on_cycle g x)"

definition fresh_nodes :: "'n set \<Rightarrow> ('n, 'a) Orchestrator \<Rightarrow> 'n set" where
  "fresh_nodes V s = {x \<in> V. marks s x = Unvisited \<or> marks s x = Failed}"

section \<open>Package main: the build command\<close>

text \<open>
  \<open>NewBuildCmd\<close> wires \<open>preRunBuild\<close> as PreRun and \<open>runBuild\<close> as Run, so a build is the
  first followed by the second. Each obtains a store from \<open>getAssetStore\<close>, fetches one
  asset from it and ends the process (\<open>logrus.Fatal\<close>) on an error. The timers and the log
  file hook of \<open>runBuild\<close> do not touch the store and are left out. The result of a phase
  is the fatal error, if any, and the store as the phase left it.
\<close>

record rootOpts =
  dir :: string
  debugBootstrap :: bool
  debugInstall :: bool

datatype fatal =
    FatalStore string
  | FatalFetch "asset_id fetch_error"

text \<open>
  Modelled from the spec: \<open>assetstore.NewStore\<close>, which \<open>getAssetStore\<close> calls with the
  assets directory, is missing. The specification describes the cache of the source as
  process-scoped and singleton-like, and asks for it to be an orchestrator instance that
  is threaded explicitly (sections 3, 5 and 9). So \<open>assetstore_NewStore\<close> takes the
  orchestrator of the running build, as the requests before left it, and hands it out;
  it is empty when the build starts.
\<close>

definition assetstore_NewStore ::
  "string \<Rightarrow> (asset_id, 'a) Orchestrator \<Rightarrow> string + (asset_id, 'a) Orchestrator" where
  "assetstore_NewStore directory cache = Inr cache"

definition getAssetStore ::
  "rootOpts \<Rightarrow> (asset_id, 'a) Orchestrator \<Rightarrow> fatal + (asset_id, 'a) Orchestrator" where
  "getAssetStore opts cache =
     (case assetstore_NewStore (dir opts) cache of
        Inl err \<Rightarrow> Inl (FatalStore err)
      | Inr assetStore \<Rightarrow> Inr assetStore)"

text \<open>
  \<open>preRunBuild\<close> fetches the EnvConfig asset. The fields it sets on the asset it passes
  (the assets directory and the two debug flags) do not enter the Fetch of the
  specification, which takes the identity of the target.
\<close>

definition preRunBuild :: "nat \<Rightarrow> (asset_id, 'a) AssetGraph \<Rightarrow> rootOpts
    \<Rightarrow> (asset_id, 'a) Orchestrator \<Rightarrow> (fatal option \<times> (asset_id, 'a) Orchestrator) option" where
  "preRunBuild k g opts cache =
     (case getAssetStore opts cache of
        Inl f \<Rightarrow> Some (Some f, cache)
      | Inr assetStore \<Rightarrow>
          (case Fetch k g assetStore EnvConfigId of
             None \<Rightarrow> None
           | Some (Inl err, s1) \<Rightarrow> Some (Some (FatalFetch err), s1)
           | Some (Inr a, s1) \<Rightarrow> Some (None, s1)))"

definition runBuild :: "nat \<Rightarrow> (asset_id, 'a) AssetGraph \<Rightarrow> rootOpts
    \<Rightarrow> (asset_id, 'a) Orchestrator \<Rightarrow> (fatal option \<times> (asset_id, 'a) Orchestrator) option" where
  "runBuild k g opts cache =
     (case getAssetStore opts cache of
        Inl f \<Rightarrow> Some (Some f, cache)
      | Inr assetStore \<Rightarrow>
          (case Fetch k g assetStore ApplianceDiskImageId of
             None \<Rightarrow> None
           | Some (Inl err, s1) \<Rightarrow> Some (Some (FatalFetch err), s1)
           | Some (Inr a, s1) \<Rightarrow> Some (None, s1)))"

definition build :: "nat \<Rightarrow> (asset_id, 'a) AssetGraph \<Rightarrow> rootOpts
    \<Rightarrow> (fatal option \<times> (asset_id, 'a) Orchestrator) option" where
  "build k g opts =
     (case preRunBuild k g opts NewStore of
        None \<Rightarrow> None
      | Some (Some f, s1) \<Rightarrow> Some (Some f, s1)
      | Some (None, s1) \<Rightarrow> runBuild k g opts s1)"

definition sample_rootOpts :: rootOpts where
  "sample_rootOpts = \<lparr>dir = ''assets'', debugBootstrap = False, debugInstall = False\<rparr>"

text \<open>Sample graphs: the disk image depending on EnvConfig; the cycle A, B, A; and a
  target T whose first dependency X fails to generate and whose second leads into
  that cycle.\<close>

definition build_graph :: "(asset_id, string) AssetGraph" where
  "build_graph =
     \<lparr>dependencies_of = (\<lambda>x. if x = ApplianceDiskImageId then [EnvConfigId] else []),
      generate = (\<lambda>x as. Inr ''artifact'')\<rparr>"

definition cyclic_graph :: "(string, string) AssetGraph" where
  "cyclic_graph =
     \<lparr>dependencies_of = (\<lambda>x. if x = ''A'' then [''B''] else if x = ''B'' then [''A''] else []),
      generate = (\<lambda>x as. Inr x)\<rparr>"

definition failing_graph :: "(string, string) AssetGraph" where
  "failing_graph =
     \<lparr>dependencies_of = (\<lambda>x. if x = ''T'' then [''X'', ''A''] else if x = ''A'' then [''B'']
                               else if x = ''B'' then [''A''] else []),
      generate = (\<lambda>x as. if x = ''X'' then Inl ''invalid input'' else Inr x)\<rparr>"

section \<open>Properties of the appliance-config asset\<close>

text \<open>
  C7. ApplianceConfig declares no dependencies, and its Generate returns no error for
  every parents value and every receiver, leaving the sample template in the receiver
  and the other fields as they were.
\<close>

theorem ApplianceConfig_generates_unconditionally:
  "ApplianceConfig_Dependencies = []
   \<and> fst (ApplianceConfig_Generate dependencies a) = None
   \<and> Template (snd (ApplianceConfig_Generate dependencies a)) = applianceConfigTemplate
   \<and> File (snd (ApplianceConfig_Generate dependencies a)) = File a
   \<and> Config (snd (ApplianceConfig_Generate dependencies a)) = Config a"
  by (simp add: ApplianceConfig_Dependencies_def ApplianceConfig_Generate_def)




section \<open>Properties of the merge engine\<close>

lemma find_distinct_key:
  "distinct (map key xs) \<Longrightarrow> e \<in> set xs \<Longrightarrow> find (\<lambda>x. key x = key e) xs = Some e"
proof (induction xs)
  case Nil
  then show ?case by simp
next
  case (Cons x xs)
  then show ?case by (auto simp: image_iff)
qed

lemma find_absent_key:
  "k \<notin> set (map key xs) \<Longrightarrow> find (\<lambda>x. key x = k) xs = None"
  by (induction xs) auto

lemma merge_entries_override:
  assumes "distinct (map key overlay)"
  shows "override_merged key base overlay (merge_entries key base overlay)"
  unfolding override_merged_def merge_entries_def
proof (intro conjI allI impI ballI)
  show "length (map (\<lambda>b. case find (\<lambda>e. key e = key b) overlay of None \<Rightarrow> b | Some e \<Rightarrow> e) base @
      filter (\<lambda>e. key e \<notin> set (map key base)) overlay) =
    length base + length (filter (\<lambda>e. key e \<notin> set (map key base)) overlay)"
    by simp
next
  fix i assume "i < length base" "key (base ! i) \<notin> set (map key overlay)"
  then show "(map (\<lambda>b. case find (\<lambda>e. key e = key b) overlay of None \<Rightarrow> b | Some e \<Rightarrow> e) base @
      filter (\<lambda>e. key e \<notin> set (map key base)) overlay) ! i = base ! i"
    by (simp add: nth_append find_absent_key)
next
  fix i e assume i: "i < length base" and e: "e \<in> set overlay" "key e = key (base ! i)"
  from find_distinct_key [OF assms e(1)] e(2)
  have "find (\<lambda>x. key x = key (base ! i)) overlay = Some e" by simp
  with i show "(map (\<lambda>b. case find (\<lambda>e. key e = key b) overlay of None \<Rightarrow> b | Some e \<Rightarrow> e) base @
      filter (\<lambda>e. key e \<notin> set (map key base)) overlay) ! i = e"
    by (simp add: nth_append)
next
  show "drop (length base) (map (\<lambda>b. case find (\<lambda>e. key e = key b) overlay of None \<Rightarrow> b | Some e \<Rightarrow> e) base @
      filter (\<lambda>e. key e \<notin> set (map key base)) overlay) =
    filter (\<lambda>e. key e \<notin> set (map key base)) overlay"
    by simp
qed

text \<open>
  C2. When Merge succeeds on fragments whose overlay has each key once, every collection
  of the result keeps the base entries whose key is absent from the overlay, replaces a
  base entry whose key the overlay has by that overlay entry at the same position, and
  appends the overlay-only entries after all base positions. On the example of the
  specification, files /a,0 and /b,1 merged with /b,2 and /c,3 give /a,0 /b,2 /c,3.
\<close>

theorem Merge_overrides_by_key:
  "(Merge compatible base overlay = Inr m
      \<and> distinct (map file_Path (Files overlay))
      \<and> distinct (map fs_Device (Filesystems overlay))
      \<and> distinct (map unit_Name (SystemdUnits overlay))
      \<and> distinct (map user_Name (Users overlay))
    \<longrightarrow> override_merged file_Path (Files base) (Files overlay) (Files m)
      \<and> override_merged fs_Device (Filesystems base) (Filesystems overlay) (Filesystems m)
      \<and> override_merged unit_Name (SystemdUnits base) (SystemdUnits overlay) (SystemdUnits m)
      \<and> override_merged user_Name (Users base) (Users overlay) (Users m))
   \<and> (compatible (filesFragment [mkFile ''/a'' 0, mkFile ''/b'' 1])
                  (filesFragment [mkFile ''/b'' 2, mkFile ''/c'' 3])
    \<longrightarrow> Merge compatible (filesFragment [mkFile ''/a'' 0, mkFile ''/b'' 1])
                          (filesFragment [mkFile ''/b'' 2, mkFile ''/c'' 3])
        = Inr (filesFragment [mkFile ''/a'' 0, mkFile ''/b'' 2, mkFile ''/c'' 3]))"
proof (intro conjI impI)
  assume h: "Merge compatible base overlay = Inr m
      \<and> distinct (map file_Path (Files overlay))
      \<and> distinct (map fs_Device (Filesystems overlay))
      \<and> distinct (map unit_Name (SystemdUnits overlay))
      \<and> distinct (map user_Name (Users overlay))"
  then have m: "m = \<lparr>Files = merge_entries file_Path (Files base) (Files overlay),
                Filesystems = merge_entries fs_Device (Filesystems base) (Filesystems overlay),
                SystemdUnits = merge_entries unit_Name (SystemdUnits base) (SystemdUnits overlay),
                Users = merge_entries user_Name (Users base) (Users overlay)\<rparr>"
    by (auto simp: Merge_def split: if_splits)
  show "override_merged file_Path (Files base) (Files overlay) (Files m)"
    using h by (simp add: m merge_entries_override)
  show "override_merged fs_Device (Filesystems base) (Filesystems overlay) (Filesystems m)"
    using h by (simp add: m merge_entries_override)
  show "override_merged unit_Name (SystemdUnits base) (SystemdUnits overlay) (SystemdUnits m)"
    using h by (simp add: m merge_entries_override)
  show "override_merged user_Name (Users base) (Users overlay) (Users m)"
    using h by (simp add: m merge_entries_override)
next
  assume "compatible (filesFragment [mkFile ''/a'' 0, mkFile ''/b'' 1])
                  (filesFragment [mkFile ''/b'' 2, mkFile ''/c'' 3])"
  then show "Merge compatible (filesFragment [mkFile ''/a'' 0, mkFile ''/b'' 1])
                          (filesFragment [mkFile ''/b'' 2, mkFile ''/c'' 3])
        = Inr (filesFragment [mkFile ''/a'' 0, mkFile ''/b'' 2, mkFile ''/c'' 3])"
    by (simp add: Merge_def filesFragment_def merge_entries_def mkFile_def)
qed

theorem Merge_overrides_by_key_witness:
  "Files (projr (Merge always_compatible (filesFragment [mkFile ''/a'' 0, mkFile ''/b'' 1])
                          (filesFragment [mkFile ''/b'' 2, mkFile ''/c'' 3]))) ! 1 = mkFile ''/b'' 2
   \<and> Merge always_compatible (filesFragment [mkFile ''/a'' 0, mkFile ''/b'' 1])
                          (filesFragment [mkFile ''/b'' 2, mkFile ''/c'' 3])
        = Inr (filesFragment [mkFile ''/a'' 0, mkFile ''/b'' 2, mkFile ''/c'' 3])"
proof -
  let ?b = "filesFragment [mkFile ''/a'' 0, mkFile ''/b'' 1]"
  let ?o = "filesFragment [mkFile ''/b'' 2, mkFile ''/c'' 3]"
  let ?m = "filesFragment [mkFile ''/a'' 0, mkFile ''/b'' 2, mkFile ''/c'' 3]"
  have c: "always_compatible ?b ?o" by (simp add: always_compatible_def)
  have d: "distinct (map file_Path (Files ?o)) \<and> distinct (map fs_Device (Filesystems ?o))
      \<and> distinct (map unit_Name (SystemdUnits ?o)) \<and> distinct (map user_Name (Users ?o))"
    by (simp add: filesFragment_def mkFile_def)
  from Merge_overrides_by_key [of always_compatible ?b ?o ?m] c d
  have eq: "Merge always_compatible ?b ?o = Inr ?m"
    and ov: "override_merged file_Path (Files ?b) (Files ?o) (Files ?m)"
    by auto
  from ov have "Files ?m ! 1 = mkFile ''/b'' 2"
    by (simp add: filesFragment_def mkFile_def)
  with eq show ?thesis by simp
qed

section \<open>Properties of the install ignition asset\<close>






lemma sample_Parents_Get:
  "Parents_Get sample_parents = Some (sample_EnvConfig, sample_ApplianceConfig, sample_RegistriesConf)"
  by (simp add: Parents_Get_def sample_parents_def)






text \<open>
  C8. Generate reads its dependencies from the parents it is passed and from nothing else
  of the orchestrator: two calls in the same environment (the same template and file
  contents) whose parents agree on EnvConfig, ApplianceConfig and RegistriesConf return
  the same error and the same config, whatever else the parents hold and whatever the
  receiver held before.
\<close>

theorem Generate_depends_on_parents_only:
  "dependencies1 EnvConfigId = dependencies2 EnvConfigId
   \<and> dependencies1 ApplianceConfigId = dependencies2 ApplianceConfigId
   \<and> dependencies1 RegistriesConfId = dependencies2 RegistriesConfId
   \<and> Parents_Get dependencies1 \<noteq> None
   \<longrightarrow> InstallIgnition_Generate env dependencies1 i1 = InstallIgnition_Generate env dependencies2 i2"
proof (intro impI, elim conjE)
  assume e: "dependencies1 EnvConfigId = dependencies2 EnvConfigId"
    "dependencies1 ApplianceConfigId = dependencies2 ApplianceConfigId"
    "dependencies1 RegistriesConfId = dependencies2 RegistriesConfId"
    and some: "Parents_Get dependencies1 \<noteq> None"
  from e have pg: "Parents_Get dependencies2 = Parents_Get dependencies1"
    by (simp add: Parents_Get_def split: option.splits asset_val.splits)
  have upd: "i1\<lparr>IConfig := c\<rparr> = i2\<lparr>IConfig := c\<rparr>" for c
    by simp
  from some obtain envConfig applianceConfig registryConf where
    s: "Parents_Get dependencies1 = Some (envConfig, applianceConfig, registryConf)" by auto
  show "InstallIgnition_Generate env dependencies1 i1 = InstallIgnition_Generate env dependencies2 i2"
    unfolding InstallIgnition_Generate_def pg s Let_def
    by (simp add: upd split: sum.splits prod.splits option.splits)
qed

theorem Generate_depends_on_parents_only_witness:
  "InstallIgnition_Generate sample_ignition_env sample_parents \<lparr>IConfig = empty_ign_Config\<rparr>
     = InstallIgnition_Generate sample_ignition_env sample_parents_more \<lparr>IConfig = sample_generated\<rparr>
   \<and> sample_parents \<noteq> sample_parents_more
   \<and> empty_ign_Config \<noteq> sample_generated"
proof -
  have a: "sample_parents EnvConfigId = sample_parents_more EnvConfigId
   \<and> sample_parents ApplianceConfigId = sample_parents_more ApplianceConfigId
   \<and> sample_parents RegistriesConfId = sample_parents_more RegistriesConfId"
    by (simp add: sample_parents_more_def)
  have b: "Parents_Get sample_parents \<noteq> None" by (simp add: sample_Parents_Get)
  have "sample_parents (OtherAssetId ''x'') \<noteq> sample_parents_more (OtherAssetId ''x'')"
    by (simp add: sample_parents_more_def sample_parents_def)
  then have c: "sample_parents \<noteq> sample_parents_more" by metis
  have d: "empty_ign_Config \<noteq> sample_generated"
    by (simp add: empty_ign_Config_def sample_generated_def)
  from Generate_depends_on_parents_only [of sample_parents sample_parents_more sample_ignition_env
      "\<lparr>IConfig = empty_ign_Config\<rparr>" "\<lparr>IConfig = sample_generated\<rparr>"] a b c d
  show ?thesis by simp
qed

lemma sample_merge_eval: "sample_merge sample_base sample_generated = Inr sample_merged"
  by (simp add: sample_merge_def sample_base_def sample_generated_def sample_merged_def
      merge_entries_def FileFromBytes_def)

text \<open>
  C1. For every assets directory: when the base ignition file parses, the merge of the
  base (as base) with the generated config (as overlay) succeeds and the directory can
  be created, PersistToFile writes that merge to ignition/install/config.ign; when the
  base file cannot be parsed (in particular when it does not exist) it writes the
  generated config alone.
\<close>

theorem PersistToFile_merges_base:
  "(ParseIgnitionFile env (filepath_Join env directory baseIgnitionPath) = Inr baseConfig
      \<and> MergeIgnitionConfig env baseConfig (IConfig i) = Inr merged
      \<and> MkdirAll env (filepath_Dir env (filepath_Join env directory InstallIgnitionPath)) = None
    \<longrightarrow> PersistToFile env i directory =
          (WriteIgnitionFile env (filepath_Join env directory InstallIgnitionPath) merged,
           [MkdirAllCall (filepath_Dir env (filepath_Join env directory InstallIgnitionPath)),
            WriteIgnitionFileCall (filepath_Join env directory InstallIgnitionPath) merged]))
   \<and> (ParseIgnitionFile env (filepath_Join env directory baseIgnitionPath) = Inl err
      \<and> MkdirAll env (filepath_Dir env (filepath_Join env directory InstallIgnitionPath)) = None
    \<longrightarrow> PersistToFile env i directory =
          (WriteIgnitionFile env (filepath_Join env directory InstallIgnitionPath) (IConfig i),
           [MkdirAllCall (filepath_Dir env (filepath_Join env directory InstallIgnitionPath)),
            WriteIgnitionFileCall (filepath_Join env directory InstallIgnitionPath) (IConfig i)]))"
  by (simp add: PersistToFile_def writeConfig_def Let_def)

theorem PersistToFile_merges_base_witness:
  "PersistToFile based_persist_env \<lparr>IConfig = sample_generated\<rparr> ''assets'' =
     (None, [MkdirAllCall ''assets/ignition/install'',
             WriteIgnitionFileCall ''assets/ignition/install/config.ign'' sample_merged])
   \<and> PersistToFile fresh_persist_env \<lparr>IConfig = sample_generated\<rparr> ''assets'' =
     (None, [MkdirAllCall ''assets/ignition/install'',
             WriteIgnitionFileCall ''assets/ignition/install/config.ign'' sample_generated])"
proof -
  have j: "filepath_Join based_persist_env ''assets'' baseIgnitionPath = ''assets/ignition/base/config.ign''"
    "filepath_Join based_persist_env ''assets'' InstallIgnitionPath = ''assets/ignition/install/config.ign''"
    "filepath_Join fresh_persist_env ''assets'' baseIgnitionPath = ''assets/ignition/base/config.ign''"
    "filepath_Join fresh_persist_env ''assets'' InstallIgnitionPath = ''assets/ignition/install/config.ign''"
    by (simp_all add: based_persist_env_def fresh_persist_env_def sample_join_def
        baseIgnitionPath_def InstallIgnitionPath_def)
  have d: "filepath_Dir based_persist_env ''assets/ignition/install/config.ign'' = ''assets/ignition/install''"
    "filepath_Dir fresh_persist_env ''assets/ignition/install/config.ign'' = ''assets/ignition/install''"
    by (simp_all add: based_persist_env_def fresh_persist_env_def sample_dir_def)
  have p: "ParseIgnitionFile based_persist_env ''assets/ignition/base/config.ign'' = Inr sample_base"
    "ParseIgnitionFile fresh_persist_env ''assets/ignition/base/config.ign'' = Inl ErrNotExist"
    by (simp_all add: based_persist_env_def fresh_persist_env_def)
  have m: "MergeIgnitionConfig based_persist_env sample_base sample_generated = Inr sample_merged"
    by (simp add: based_persist_env_def sample_merge_eval)
  have k: "MkdirAll based_persist_env ''assets/ignition/install'' = None"
    "MkdirAll fresh_persist_env ''assets/ignition/install'' = None"
    "WriteIgnitionFile based_persist_env ''assets/ignition/install/config.ign'' sample_merged = None"
    "WriteIgnitionFile fresh_persist_env ''assets/ignition/install/config.ign'' sample_generated = None"
    by (simp_all add: based_persist_env_def fresh_persist_env_def)
  from PersistToFile_merges_base [of based_persist_env "''assets''" sample_base
      "\<lparr>IConfig = sample_generated\<rparr>" sample_merged ErrNotExist] j d p m k
  have 1: "PersistToFile based_persist_env \<lparr>IConfig = sample_generated\<rparr> ''assets'' =
     (None, [MkdirAllCall ''assets/ignition/install'',
             WriteIgnitionFileCall ''assets/ignition/install/config.ign'' sample_merged])"
    by simp
  from PersistToFile_merges_base [of fresh_persist_env "''assets''" sample_base
      "\<lparr>IConfig = sample_generated\<rparr>" sample_merged ErrNotExist] j d p k
  have 2: "PersistToFile fresh_persist_env \<lparr>IConfig = sample_generated\<rparr> ''assets'' =
     (None, [MkdirAllCall ''assets/ignition/install'',
             WriteIgnitionFileCall ''assets/ignition/install/config.ign'' sample_generated])"
    by simp
  from 1 2 show ?thesis by simp
qed




section \<open>Properties of the orchestrator\<close>

lemma evolves_refl: "evolves s s"
  by (simp add: evolves_def)

lemma evolves_trans: "evolves s s1 \<Longrightarrow> evolves s1 s2 \<Longrightarrow> evolves s s2"
  by (auto simp: evolves_def)

lemma Fetch_evolves:
  "Fetch k g s t = Some (r, s1) \<Longrightarrow> evolves s s1"
  "FetchAll k g s ds = Some (rs, s1) \<Longrightarrow> evolves s s1"
proof (induction k g s t and k g s ds arbitrary: r s1 and rs s1 rule: Fetch_FetchAll.induct)
  case (1 g s target)
  then show ?case by simp
next
  case (2 k g s target)
  let ?s' = "s\<lparr>marks := (marks s)(target := InProgress)\<rparr>"
  show ?case
  proof (cases "marks s target = Unvisited \<or> marks s target = Failed")
    case False
    with "2.prems" show ?thesis
      by (cases "marks s target") (auto simp: evolves_refl)
  next
    case True
    then have step: "Fetch (Suc k) g s target =
      (case FetchAll k g ?s' (dependencies_of g target) of
             None \<Rightarrow> None
           | Some (Inl e, s1) \<Rightarrow> Some (Inl (DependencyError target e), s1)
           | Some (Inr artifacts, s1) \<Rightarrow>
               (case generate g target artifacts of
                  Inl why \<Rightarrow>
                    Some (Inl (GenerationError target why),
                          s1\<lparr>marks := (marks s1)(target := Failed),
                             invoked := invoked s1 @ [target]\<rparr>)
                | Inr a \<Rightarrow>
                    Some (Inr a,
                          s1\<lparr>marks := (marks s1)(target := Generated a),
                             invoked := invoked s1 @ [target]\<rparr>)))"
      by auto
    from "2.prems" step obtain rr s2 where
      fa: "FetchAll k g ?s' (dependencies_of g target) = Some (rr, s2)"
      by (auto split: option.splits)
    from True fa "2.IH" have ev: "evolves ?s' s2" by blast
    from "2.prems" step fa have
      "s1 = s2 \<or> s1 = s2\<lparr>marks := (marks s2)(target := Failed), invoked := invoked s2 @ [target]\<rparr>
       \<or> (\<exists>a. s1 = s2\<lparr>marks := (marks s2)(target := Generated a), invoked := invoked s2 @ [target]\<rparr>)"
      by (auto split: sum.splits)
    then have m1: "\<And>x. x \<noteq> target \<Longrightarrow> marks s1 x = marks s2 x"
      and l1: "\<exists>l. invoked s1 = invoked s2 @ l"
      by auto
    have a: "marks s1 x = InProgress" if "marks s x = InProgress" for x
    proof -
      from that True have "x \<noteq> target" by auto
      with ev that m1 show ?thesis by (simp add: evolves_def)
    qed
    have b: "marks s1 x = Generated a" if "marks s x = Generated a" for x a
    proof -
      from that True have "x \<noteq> target" by auto
      with ev that m1 show ?thesis by (simp add: evolves_def)
    qed
    from ev l1 have c: "\<exists>l. invoked s1 = invoked s @ l"
      by (auto simp: evolves_def)
    from a b c show ?thesis by (simp add: evolves_def)
  qed
next
  case (3 k g s)
  then show ?case by (simp add: evolves_refl)
next
  case (4 k g s d ds)
  from "4.prems" obtain r0 s0 where f: "Fetch k g s d = Some (r0, s0)"
    by (auto split: option.splits)
  from "4.IH"(1) [OF f] have e0: "evolves s s0" .
  show ?case
  proof (cases r0)
    case (Inl e)
    with "4.prems" f e0 show ?thesis by simp
  next
    case (Inr a)
    with "4.prems" f obtain r2 where f2: "FetchAll k g s0 ds = Some (r2, s1)"
      by (auto split: option.splits sum.splits)
    from "4.IH"(2) [OF f refl Inr f2] have "evolves s0 s1" .
    with e0 show ?thesis by (rule evolves_trans)
  qed
qed

lemma Fetch_settled:
  "marks s t = Generated a \<Longrightarrow> Fetch (Suc k) g s t = Some (Inr a, s)"
  "marks s t = InProgress \<Longrightarrow> Fetch (Suc k) g s t = Some (Inl (CycleError t), s)"
  by simp_all

lemma Fetch_fresh_cases:
  assumes "marks s t = Unvisited \<or> marks s t = Failed"
    and "Fetch (Suc k) g s t = Some (r, s1)"
  obtains (dep) e where
      "FetchAll k g (s\<lparr>marks := (marks s)(t := InProgress)\<rparr>) (dependencies_of g t) = Some (Inl e, s1)"
      "r = Inl (DependencyError t e)"
  | (genfail) as s2 why where
      "FetchAll k g (s\<lparr>marks := (marks s)(t := InProgress)\<rparr>) (dependencies_of g t) = Some (Inr as, s2)"
      "generate g t as = Inl why" "r = Inl (GenerationError t why)"
      "s1 = s2\<lparr>marks := (marks s2)(t := Failed), invoked := invoked s2 @ [t]\<rparr>"
  | (gen) as s2 a where
      "FetchAll k g (s\<lparr>marks := (marks s)(t := InProgress)\<rparr>) (dependencies_of g t) = Some (Inr as, s2)"
      "generate g t as = Inr a" "r = Inr a"
      "s1 = s2\<lparr>marks := (marks s2)(t := Generated a), invoked := invoked s2 @ [t]\<rparr>"
  using assms by (auto split: option.splits sum.splits)

lemma FetchAll_Cons_cases:
  assumes "FetchAll k g s (d # ds) = Some (r, s2)"
  obtains (fail) e where "Fetch k g s d = Some (Inl e, s2)" "r = Inl e"
  | (restfail) a s1 e where "Fetch k g s d = Some (Inr a, s1)"
      "FetchAll k g s1 ds = Some (Inl e, s2)" "r = Inl e"
  | (ok) a s1 as where "Fetch k g s d = Some (Inr a, s1)"
      "FetchAll k g s1 ds = Some (Inr as, s2)" "r = Inr (a # as)"
  using assms by (auto split: option.splits sum.splits)

lemma settles_refl: "settles s s"
  by (simp add: settles_def)

lemma settles_trans:
  assumes "settles s s1" "settles s1 s2"
  shows "settles s s2"
  unfolding settles_def
proof
  fix x
  from assms(1) have 1: "marks s1 x = marks s x
     \<or> ((marks s x = Unvisited \<or> marks s x = Failed) \<and> (\<exists>a. marks s1 x = Generated a))"
    by (simp add: settles_def)
  from assms(2) have 2: "marks s2 x = marks s1 x
     \<or> ((marks s1 x = Unvisited \<or> marks s1 x = Failed) \<and> (\<exists>a. marks s2 x = Generated a))"
    by (simp add: settles_def)
  from 1 2 show "marks s2 x = marks s x
     \<or> ((marks s x = Unvisited \<or> marks s x = Failed) \<and> (\<exists>a. marks s2 x = Generated a))"
    by auto
qed

lemma settles_Generated:
  "settles s s1 \<Longrightarrow> marks s x = Generated a \<Longrightarrow> marks s1 x = Generated a"
  by (auto simp: settles_def dest!: spec [of _ x])

lemma settles_InProgress:
  "settles s s1 \<Longrightarrow> marks s1 x = InProgress \<longleftrightarrow> marks s x = InProgress"
  by (auto simp: settles_def dest!: spec [of _ x])

lemma Fetch_success:
  "Fetch k g s t = Some (Inr a, s1) \<Longrightarrow> settles s s1 \<and> marks s1 t = Generated a"
  "FetchAll k g s ds = Some (Inr as, s1) \<Longrightarrow>
     settles s s1 \<and> (\<forall>d \<in> set ds. \<exists>b. marks s1 d = Generated b)"
proof (induction k g s t and k g s ds arbitrary: a s1 and as s1 rule: Fetch_FetchAll.induct)
  case (1 g s target)
  then show ?case by simp
next
  case (2 k g s target)
  show ?case
  proof (cases "marks s target = Unvisited \<or> marks s target = Failed")
    case False
    with "2.prems" show ?thesis
      by (cases "marks s target") (auto simp: settles_refl)
  next
    case True
    from True "2.prems" show ?thesis
    proof (cases rule: Fetch_fresh_cases)
      case (dep e)
      then show ?thesis by simp
    next
      case (genfail as s2 why)
      then show ?thesis by simp
    next
      case (gen as s2 b)
      from True gen(1) "2.IH" have st: "settles (s\<lparr>marks := (marks s)(target := InProgress)\<rparr>) s2"
        by blast
      have "settles s s1"
        unfolding settles_def
      proof
        fix x
        show "marks s1 x = marks s x
          \<or> ((marks s x = Unvisited \<or> marks s x = Failed) \<and> (\<exists>a. marks s1 x = Generated a))"
        proof (cases "x = target")
          case True
          with \<open>marks s target = Unvisited \<or> marks s target = Failed\<close> gen(4) show ?thesis by simp
        next
          case False
          with st gen(4) show ?thesis
            by (auto simp: settles_def dest!: spec [of _ x])
        qed
      qed
      with gen show ?thesis by simp
    qed
  qed
next
  case (3 k g s)
  then show ?case by (simp add: settles_refl)
next
  case (4 k g s d ds)
  from "4.prems" show ?case
  proof (cases rule: FetchAll_Cons_cases)
    case (fail e)
    then show ?thesis by simp
  next
    case (restfail a s0 e)
    then show ?thesis by simp
  next
    case (ok a s0 as')
    from "4.IH"(1) [OF ok(1)] have 1: "settles s s0" "marks s0 d = Generated a" by simp_all
    from "4.IH"(2) [OF ok(1) refl refl ok(2)]
    have 2: "settles s0 s1" "\<forall>d \<in> set ds. \<exists>b. marks s1 d = Generated b" by simp_all
    from 1 2 show ?thesis
      by (auto intro: settles_trans dest: settles_Generated)
  qed
qed

lemma Fetch_log_ok:
  "Fetch k g s t = Some (r, s1) \<Longrightarrow> log_ok s \<Longrightarrow>
     distinct (invoked s1) \<and> ((\<exists>a. r = Inr a) \<longrightarrow> log_ok s1)"
  "FetchAll k g s ds = Some (rs, s1) \<Longrightarrow> log_ok s \<Longrightarrow>
     distinct (invoked s1) \<and> ((\<exists>as. rs = Inr as) \<longrightarrow> log_ok s1)"
proof (induction k g s t and k g s ds arbitrary: r s1 and rs s1 rule: Fetch_FetchAll.induct)
  case (1 g s target)
  then show ?case by simp
next
  case (2 k g s target)
  let ?s' = "s\<lparr>marks := (marks s)(target := InProgress)\<rparr>"
  show ?case
  proof (cases "marks s target = Unvisited \<or> marks s target = Failed")
    case False
    with "2.prems" show ?thesis
      by (cases "marks s target") (auto simp: log_ok_def)
  next
    case True
    with "2.prems"(2) have ok': "log_ok ?s'"
      by (auto simp: log_ok_def)
    have inprog: "marks s2 target = InProgress" "target \<notin> set (invoked s2)"
      if "FetchAll k g ?s' (dependencies_of g target) = Some (Inr as, s2)" for as s2
    proof -
      from Fetch_success(2) [OF that] have "settles ?s' s2" by simp
      then show m: "marks s2 target = InProgress"
        by (simp add: settles_InProgress)
      from True that "2.IH" ok' have "log_ok s2" by blast
      with m show "target \<notin> set (invoked s2)" by (auto simp: log_ok_def)
    qed
    from True "2.prems"(1) show ?thesis
    proof (cases rule: Fetch_fresh_cases)
      case (dep e)
      with True "2.IH" ok' show ?thesis by blast
    next
      case (genfail as s2 why)
      from True genfail(1) "2.IH" ok' have "log_ok s2" by blast
      with inprog [OF genfail(1)] genfail show ?thesis by (simp add: log_ok_def)
    next
      case (gen as s2 a)
      from True gen(1) "2.IH" ok' have "log_ok s2" by blast
      with inprog [OF gen(1)] gen show ?thesis by (auto simp: log_ok_def)
    qed
  qed
next
  case (3 k g s)
  then show ?case by (simp add: log_ok_def)
next
  case (4 k g s d ds)
  from "4.prems"(1) show ?case
  proof (cases rule: FetchAll_Cons_cases)
    case (fail e)
    with "4.IH"(1) "4.prems"(2) show ?thesis by blast
  next
    case (restfail a s0 e)
    from "4.IH"(1) [OF restfail(1) "4.prems"(2)] have "log_ok s0" by simp
    from "4.IH"(2) [OF restfail(1) refl refl restfail(2) this] restfail(3) show ?thesis by simp
  next
    case (ok a s0 as')
    from "4.IH"(1) [OF ok(1) "4.prems"(2)] have "log_ok s0" by simp
    from "4.IH"(2) [OF ok(1) refl refl ok(2) this] show ?thesis by simp
  qed
qed

lemma sound_deps:
  "sound g s \<Longrightarrow> marks s x = Generated a \<Longrightarrow> d \<in> set (dependencies_of g x)
     \<Longrightarrow> \<exists>b. marks s d = Generated b"
  unfolding sound_def by blast

lemma sound_acyclic:
  "sound g s \<Longrightarrow> marks s x = Generated a \<Longrightarrow> \<not> on_cycle g x"
  unfolding sound_def by blast

lemma sound_reach:
  assumes "sound g s" and "(x, y) \<in> (dep_rel g)\<^sup>*" and "marks s x = Generated a"
  shows "\<exists>b. marks s y = Generated b"
  using assms(2,3)
proof (induction arbitrary: a rule: converse_rtrancl_induct)
  case base
  then show ?case by blast
next
  case (step x z)
  from step.hyps(1) have "z \<in> set (dependencies_of g x)" by (simp add: dep_rel_def)
  with assms(1) step.prems obtain b where "marks s z = Generated b"
    by (blast dest: sound_deps)
  then show ?case by (rule step.IH)
qed

lemma not_on_cycle_when_deps_Generated:
  assumes "sound g s" and "marks s t = InProgress"
    and "\<forall>d \<in> set (dependencies_of g t). \<exists>b. marks s d = Generated b"
  shows "\<not> on_cycle g t"
proof
  assume "on_cycle g t"
  then have "(t, t) \<in> (dep_rel g)\<^sup>+" by (simp add: on_cycle_def)
  then obtain d where d: "(t, d) \<in> dep_rel g" "(d, t) \<in> (dep_rel g)\<^sup>*"
    by (auto dest: tranclD)
  from d(1) have "d \<in> set (dependencies_of g t)" by (simp add: dep_rel_def)
  with assms(3) obtain b where "marks s d = Generated b" by auto
  from sound_reach [OF assms(1) d(2) this] assms(2) show False by auto
qed

lemma sound_mark_InProgress:
  assumes "sound g s" and "marks s t = Unvisited \<or> marks s t = Failed"
  shows "sound g (s\<lparr>marks := (marks s)(t := InProgress)\<rparr>)"
  unfolding sound_def
proof (intro conjI allI impI ballI)
  fix x a
  assume x: "marks (s\<lparr>marks := (marks s)(t := InProgress)\<rparr>) x = Generated a"
  then have xt: "x \<noteq> t" and gx: "marks s x = Generated a" by (auto split: if_splits)
  from assms(1) gx show "\<not> on_cycle g x" by (rule sound_acyclic)
  fix d assume d: "d \<in> set (dependencies_of g x)"
  with assms(1) gx obtain b where b: "marks s d = Generated b" by (blast dest: sound_deps)
  with assms(2) have "d \<noteq> t" by auto
  with b show "\<exists>b. marks (s\<lparr>marks := (marks s)(t := InProgress)\<rparr>) d = Generated b" by simp
next
  fix x assume "x \<in> set (invoked (s\<lparr>marks := (marks s)(t := InProgress)\<rparr>))"
  with assms(1) show "\<not> on_cycle g x" by (simp add: sound_def)
qed

lemma sound_finish:
  assumes "sound g s" and "marks s t = InProgress" and "\<not> on_cycle g t"
    and "m = Failed \<or> (m = Generated a \<and> (\<forall>d \<in> set (dependencies_of g t). \<exists>b. marks s d = Generated b))"
  shows "sound g (s\<lparr>marks := (marks s)(t := m), invoked := invoked s @ [t]\<rparr>)"
  unfolding sound_def
proof (intro conjI allI impI ballI)
  fix x c
  assume x: "marks (s\<lparr>marks := (marks s)(t := m), invoked := invoked s @ [t]\<rparr>) x = Generated c"
  show "\<not> on_cycle g x"
  proof (cases "x = t")
    case True
    with assms(3) show ?thesis by simp
  next
    case False
    with x assms(1) show ?thesis by (auto dest: sound_acyclic)
  qed
  fix d assume d: "d \<in> set (dependencies_of g x)"
  have "\<exists>b. marks s d = Generated b"
  proof (cases "x = t")
    case True
    with x assms(4) d show ?thesis by auto
  next
    case False
    with x have "marks s x = Generated c" by simp
    from sound_deps [OF assms(1) this d] show ?thesis .
  qed
  with assms(2) have "d \<noteq> t" by auto
  with \<open>\<exists>b. marks s d = Generated b\<close>
  show "\<exists>b. marks (s\<lparr>marks := (marks s)(t := m), invoked := invoked s @ [t]\<rparr>) d = Generated b"
    by simp
next
  fix x assume "x \<in> set (invoked (s\<lparr>marks := (marks s)(t := m), invoked := invoked s @ [t]\<rparr>))"
  with assms(1,3) show "\<not> on_cycle g x" by (auto simp: sound_def)
qed

lemma Fetch_sound:
  "Fetch k g s t = Some (r, s1) \<Longrightarrow> sound g s \<Longrightarrow> sound g s1"
  "FetchAll k g s ds = Some (rs, s1) \<Longrightarrow> sound g s \<Longrightarrow> sound g s1"
proof (induction k g s t and k g s ds arbitrary: r s1 and rs s1 rule: Fetch_FetchAll.induct)
  case (1 g s target)
  then show ?case by simp
next
  case (2 k g s target)
  let ?s' = "s\<lparr>marks := (marks s)(target := InProgress)\<rparr>"
  show ?case
  proof (cases "marks s target = Unvisited \<or> marks s target = Failed")
    case False
    with "2.prems" show ?thesis
      by (cases "marks s target") auto
  next
    case True
    from sound_mark_InProgress [OF "2.prems"(2) True] have s': "sound g ?s'" .
    have fin: "sound g s2 \<and> marks s2 target = InProgress \<and> \<not> on_cycle g target
               \<and> (\<forall>d \<in> set (dependencies_of g target). \<exists>b. marks s2 d = Generated b)"
      if fa: "FetchAll k g ?s' (dependencies_of g target) = Some (Inr as, s2)" for as s2
    proof -
      from True fa "2.IH" s' have 1: "sound g s2" by blast
      from Fetch_success(2) [OF fa] have st: "settles ?s' s2"
        and 3: "\<forall>d \<in> set (dependencies_of g target). \<exists>b. marks s2 d = Generated b" by simp_all
      from st have 2: "marks s2 target = InProgress" by (simp add: settles_InProgress)
      from not_on_cycle_when_deps_Generated [OF 1 2 3] 1 2 3 show ?thesis by simp
    qed
    from True "2.prems"(1) show ?thesis
    proof (cases rule: Fetch_fresh_cases)
      case (dep e)
      with True "2.IH" s' show ?thesis by blast
    next
      case (genfail as s2 why)
      from fin [OF genfail(1)] show ?thesis
        unfolding genfail(4) by (intro sound_finish) auto
    next
      case (gen as s2 a)
      from fin [OF gen(1)] show ?thesis
        unfolding gen(4) by (intro sound_finish [where a = a]) auto
    qed
  qed
next
  case (3 k g s)
  then show ?case by simp
next
  case (4 k g s d ds)
  from "4.prems"(1) show ?case
  proof (cases rule: FetchAll_Cons_cases)
    case (fail e)
    with "4.IH"(1) "4.prems"(2) show ?thesis by blast
  next
    case (restfail a s0 e)
    from "4.IH"(1) [OF restfail(1) "4.prems"(2)] have "sound g s0" .
    from "4.IH"(2) [OF restfail(1) refl refl restfail(2) this] show ?thesis .
  next
    case (ok a s0 as')
    from "4.IH"(1) [OF ok(1) "4.prems"(2)] have "sound g s0" .
    from "4.IH"(2) [OF ok(1) refl refl ok(2) this] show ?thesis .
  qed
qed

lemma Fetch_cycle_named:
  "Fetch k g s t = Some (Inl e, s1) \<Longrightarrow>
     (\<forall>x. marks s x = InProgress \<longrightarrow> (x, t) \<in> (dep_rel g)\<^sup>+) \<Longrightarrow>
     root_cause e = CycleError y \<Longrightarrow> on_cycle g y"
  "FetchAll k g s ds = Some (Inl e, s1) \<Longrightarrow>
     (\<forall>x. marks s x = InProgress \<longrightarrow> (\<forall>d \<in> set ds. (x, d) \<in> (dep_rel g)\<^sup>+)) \<Longrightarrow>
     root_cause e = CycleError y \<Longrightarrow> on_cycle g y"
proof (induction k g s t and k g s ds arbitrary: e s1 and e s1 rule: Fetch_FetchAll.induct)
  case (1 g s target)
  then show ?case by simp
next
  case (2 k g s target)
  let ?s' = "s\<lparr>marks := (marks s)(target := InProgress)\<rparr>"
  show ?case
  proof (cases "marks s target = Unvisited \<or> marks s target = Failed")
    case False
    with "2.prems" show ?thesis
      by (cases "marks s target") (auto simp: on_cycle_def)
  next
    case True
    have stk: "\<forall>x. marks ?s' x = InProgress \<longrightarrow>
                 (\<forall>d \<in> set (dependencies_of g target). (x, d) \<in> (dep_rel g)\<^sup>+)"
    proof (intro allI impI ballI)
      fix x d assume x: "marks ?s' x = InProgress" and d: "d \<in> set (dependencies_of g target)"
      from d have td: "(target, d) \<in> dep_rel g" by (simp add: dep_rel_def)
      show "(x, d) \<in> (dep_rel g)\<^sup>+"
      proof (cases "x = target")
        case True
        with td show ?thesis by auto
      next
        case False
        with x "2.prems"(2) have "(x, target) \<in> (dep_rel g)\<^sup>+" by simp
        with td show ?thesis by (auto intro: trancl_into_trancl)
      qed
    qed
    from True "2.prems"(1) show ?thesis
    proof (cases rule: Fetch_fresh_cases)
      case (dep e')
      with "2.prems"(3) have "root_cause e' = CycleError y" by simp
      with True dep(1) "2.IH" stk show ?thesis by blast
    next
      case (genfail as s2 why)
      with "2.prems"(3) show ?thesis by simp
    next
      case (gen as s2 a)
      then show ?thesis by simp
    qed
  qed
next
  case (3 k g s)
  then show ?case by simp
next
  case (4 k g s d ds)
  from "4.prems"(1) show ?case
  proof (cases rule: FetchAll_Cons_cases)
    case (fail e')
    with "4.prems"(2,3) have "\<forall>x. marks s x = InProgress \<longrightarrow> (x, d) \<in> (dep_rel g)\<^sup>+"
      "root_cause e' = CycleError y" by simp_all
    with "4.IH"(1) [OF fail(1)] show ?thesis by blast
  next
    case (restfail a s0 e')
    from Fetch_success(1) [OF restfail(1)] have st: "settles s s0" by simp
    have "\<forall>x. marks s0 x = InProgress \<longrightarrow> (\<forall>d \<in> set ds. (x, d) \<in> (dep_rel g)\<^sup>+)"
      using "4.prems"(2) st by (simp add: settles_InProgress)
    moreover from restfail(3) "4.prems"(3) have "root_cause e' = CycleError y" by simp
    ultimately show ?thesis
      using "4.IH"(2) [OF restfail(1) refl refl restfail(2)] by blast
  next
    case (ok a s0 as')
    then show ?thesis by simp
  qed
qed

lemma Fetch_root_cause:
  "Fetch k g s t = Some (Inl e, s1) \<Longrightarrow>
     (\<exists>y. root_cause e = CycleError y)
     \<or> (\<exists>x as why. root_cause e = GenerationError x why \<and> generate g x as = Inl why)"
  "FetchAll k g s ds = Some (Inl e, s1) \<Longrightarrow>
     (\<exists>y. root_cause e = CycleError y)
     \<or> (\<exists>x as why. root_cause e = GenerationError x why \<and> generate g x as = Inl why)"
proof (induction k g s t and k g s ds arbitrary: e s1 and e s1 rule: Fetch_FetchAll.induct)
  case (1 g s target)
  then show ?case by simp
next
  case (2 k g s target)
  show ?case
  proof (cases "marks s target = Unvisited \<or> marks s target = Failed")
    case False
    with "2.prems" show ?thesis
      by (cases "marks s target") auto
  next
    case True
    from True "2.prems"(1) show ?thesis
    proof (cases rule: Fetch_fresh_cases)
      case (dep e')
      with True "2.IH" show ?thesis by auto
    next
      case (genfail as s2 why)
      then show ?thesis by auto
    next
      case (gen as s2 a)
      then show ?thesis by simp
    qed
  qed
next
  case (3 k g s)
  then show ?case by simp
next
  case (4 k g s d ds)
  from "4.prems"(1) show ?case
  proof (cases rule: FetchAll_Cons_cases)
    case (fail e')
    with "4.IH"(1) show ?thesis by blast
  next
    case (restfail a s0 e')
    with "4.IH"(2) show ?thesis by blast
  next
    case (ok a s0 as')
    then show ?thesis by simp
  qed
qed

lemma fresh_nodes_mark:
  assumes "finite V" "t \<in> V" "marks s t = Unvisited \<or> marks s t = Failed"
  shows "card (fresh_nodes V (s\<lparr>marks := (marks s)(t := InProgress)\<rparr>)) < card (fresh_nodes V s)"
proof -
  have e: "fresh_nodes V (s\<lparr>marks := (marks s)(t := InProgress)\<rparr>) = fresh_nodes V s - {t}"
    by (auto simp: fresh_nodes_def)
  from assms have m: "t \<in> fresh_nodes V s" by (simp add: fresh_nodes_def)
  from assms(1) have f: "finite (fresh_nodes V s)" by (simp add: fresh_nodes_def)
  from card_Diff1_less [OF f m] show ?thesis unfolding e .
qed

lemma fresh_nodes_settles:
  assumes "finite V" "settles s s1"
  shows "card (fresh_nodes V s1) \<le> card (fresh_nodes V s)"
proof (rule card_mono)
  from assms(1) show "finite (fresh_nodes V s)" by (simp add: fresh_nodes_def)
  show "fresh_nodes V s1 \<subseteq> fresh_nodes V s"
  proof
    fix x assume "x \<in> fresh_nodes V s1"
    then have x: "x \<in> V" "marks s1 x = Unvisited \<or> marks s1 x = Failed"
      by (simp_all add: fresh_nodes_def)
    from assms(2) have "marks s1 x = marks s x
          \<or> ((marks s x = Unvisited \<or> marks s x = Failed) \<and> (\<exists>a. marks s1 x = Generated a))"
      by (simp add: settles_def)
    with x show "x \<in> fresh_nodes V s" by (auto simp: fresh_nodes_def)
  qed
qed

lemma Fetch_enough_fuel:
  "finite V \<Longrightarrow> \<forall>x \<in> V. set (dependencies_of g x) \<subseteq> V \<Longrightarrow> t \<in> V \<Longrightarrow>
     card (fresh_nodes V s) < k \<Longrightarrow> Fetch k g s t \<noteq> None"
  "finite V \<Longrightarrow> \<forall>x \<in> V. set (dependencies_of g x) \<subseteq> V \<Longrightarrow> set ds \<subseteq> V \<Longrightarrow>
     card (fresh_nodes V s) < k \<Longrightarrow> FetchAll k g s ds \<noteq> None"
proof (induction k g s t and k g s ds rule: Fetch_FetchAll.induct)
  case (1 g s target)
  then show ?case by simp
next
  case (2 k g s target)
  let ?s' = "s\<lparr>marks := (marks s)(target := InProgress)\<rparr>"
  show ?case
  proof (cases "marks s target = Unvisited \<or> marks s target = Failed")
    case False
    then show ?thesis
      by (cases "marks s target") auto
  next
    case True
    from fresh_nodes_mark [OF "2.prems"(1,3) True] "2.prems"(4)
    have c: "card (fresh_nodes V ?s') < k" by simp
    from "2.prems"(2,3) have d: "set (dependencies_of g target) \<subseteq> V" by blast
    from True "2.IH" "2.prems"(1,2) d c
    have "FetchAll k g ?s' (dependencies_of g target) \<noteq> None" by blast
    with True show ?thesis
      by (auto split: option.splits sum.splits prod.splits)
  qed
next
  case (3 k g s)
  then show ?case by simp
next
  case (4 k g s d ds)
  from "4.prems" have 1: "Fetch k g s d \<noteq> None"
    by (intro "4.IH"(1)) auto
  then obtain r0 s0 where f: "Fetch k g s d = Some (r0, s0)" by auto
  show ?case
  proof (cases r0)
    case (Inl e)
    with f show ?thesis by simp
  next
    case (Inr a)
    from Fetch_success(1) [OF f [unfolded Inr]] have "settles s s0" by simp
    from fresh_nodes_settles [OF "4.prems"(1) this] "4.prems"(4)
    have "card (fresh_nodes V s0) < k" by simp
    with "4.IH"(2) [OF f refl Inr "4.prems"(1,2)] "4.prems"(3)
    have "FetchAll k g s0 ds \<noteq> None" by simp
    with f Inr show ?thesis by (auto split: sum.splits)
  qed
qed

lemma Fetch_generation_error_invoked:
  "Fetch k g s t = Some (Inl e, s1) \<Longrightarrow> root_cause e = GenerationError x why
     \<Longrightarrow> x \<in> set (invoked s1)"
  "FetchAll k g s ds = Some (Inl e, s1) \<Longrightarrow> root_cause e = GenerationError x why
     \<Longrightarrow> x \<in> set (invoked s1)"
proof (induction k g s t and k g s ds arbitrary: e s1 and e s1 rule: Fetch_FetchAll.induct)
  case (1 g s target)
  then show ?case by simp
next
  case (2 k g s target)
  show ?case
  proof (cases "marks s target = Unvisited \<or> marks s target = Failed")
    case False
    with "2.prems" show ?thesis
      by (cases "marks s target") auto
  next
    case True
    from True "2.prems"(1) show ?thesis
    proof (cases rule: Fetch_fresh_cases)
      case (dep e')
      with True "2.IH" "2.prems"(2) show ?thesis by auto
    next
      case (genfail as s2 why')
      with "2.prems"(2) show ?thesis by auto
    next
      case (gen as s2 a)
      then show ?thesis by simp
    qed
  qed
next
  case (3 k g s)
  then show ?case by simp
next
  case (4 k g s d ds)
  from "4.prems"(1) show ?case
  proof (cases rule: FetchAll_Cons_cases)
    case (fail e')
    with "4.IH"(1) "4.prems"(2) show ?thesis by blast
  next
    case (restfail a s0 e')
    with "4.IH"(2) "4.prems"(2) show ?thesis by blast
  next
    case (ok a s0 as')
    then show ?thesis by simp
  qed
qed

lemma NewStore_facts:
  "log_ok NewStore" "sound g NewStore" "fresh_nodes V NewStore = V"
  "marks NewStore x = Unvisited" "invoked NewStore = []"
  by (simp_all add: log_ok_def sound_def fresh_nodes_def NewStore_def)

lemma FetchEach_log_ok:
  "FetchEach k g s ts = Some (r, s1) \<Longrightarrow> log_ok s \<Longrightarrow>
     distinct (invoked s1) \<and> (r = None \<longrightarrow> log_ok s1 \<and> settles s s1)"
proof (induction ts arbitrary: s)
  case Nil
  then show ?case by (auto simp: log_ok_def settles_refl)
next
  case (Cons t ts)
  from Cons.prems(1) obtain r0 s0 where f: "Fetch k g s t = Some (r0, s0)"
    by (auto split: option.splits)
  show ?case
  proof (cases r0)
    case (Inl e)
    with Cons.prems f Fetch_log_ok(1) [OF f] show ?thesis by auto
  next
    case (Inr a)
    with Fetch_log_ok(1) [OF f Cons.prems(2)] have ok0: "log_ok s0" by simp
    from Fetch_success(1) [OF f [unfolded Inr]] have st: "settles s s0" by simp
    from Cons.prems(1) f Inr have "FetchEach k g s0 ts = Some (r, s1)" by simp
    from Cons.IH [OF this ok0] st show ?thesis
      by (auto intro: settles_trans)
  qed
qed

lemma FetchEach_settles:
  "FetchEach k g s ts = Some (None, s1) \<Longrightarrow> settles s s1"
proof (induction ts arbitrary: s)
  case Nil
  then show ?case by (simp add: settles_refl)
next
  case (Cons t ts)
  from Cons.prems obtain b s0 where f0: "Fetch k g s t = Some (Inr b, s0)"
    and e0: "FetchEach k g s0 ts = Some (None, s1)"
    by (auto split: option.splits sum.splits)
  from Fetch_success(1) [OF f0] Cons.IH [OF e0] show ?case
    by (auto intro: settles_trans)
qed

lemma Fetch_invokes_target:
  assumes "Fetch k g s t = Some (Inr a, s1)" and "\<forall>b. marks s t \<noteq> Generated b"
  shows "t \<in> set (invoked s1)"
proof (cases k)
  case 0
  with assms(1) show ?thesis by simp
next
  case (Suc n)
  show ?thesis
  proof (cases "marks s t = Unvisited \<or> marks s t = Failed")
    case False
    with assms Suc show ?thesis by (cases "marks s t") auto
  next
    case True
    from True assms(1) [unfolded Suc] show ?thesis
      by (cases rule: Fetch_fresh_cases) auto
  qed
qed

lemma count_list_distinct:
  "distinct xs \<Longrightarrow> x \<in> set xs \<Longrightarrow> count_list xs x = 1"
  by (induction xs) (auto simp: count_list_0_iff)

text \<open>
  C3. In a run, which starts from an empty store and stops at the first failure, no
  generation function is invoked twice. After a successful Fetch of an identity, and
  whatever is fetched successfully afterwards, a Fetch of that identity returns the
  cached artifact and leaves the store, and so the list of invocations, unchanged.
  In a build whose preRunBuild fetched EnvConfig, the generation of EnvConfig has been
  invoked exactly once when runBuild returns.
\<close>

theorem Fetch_generates_at_most_once:
  "(FetchEach k g NewStore ts = Some (r, s') \<longrightarrow> distinct (invoked s'))
   \<and> (Fetch k g s x = Some (Inr a, s1) \<and> FetchEach k' g s1 ts' = Some (None, s2)
        \<longrightarrow> Fetch (Suc n) g s2 x = Some (Inr a, s2))
   \<and> (preRunBuild k g opts NewStore = Some (None, p1) \<and> build k g opts = Some (r', p2)
        \<longrightarrow> count_list (invoked p2) EnvConfigId = 1)"
proof (intro conjI impI)
  assume "FetchEach k g NewStore ts = Some (r, s')"
  from FetchEach_log_ok [OF this NewStore_facts(1)] show "distinct (invoked s')" by simp
next
  assume h: "Fetch k g s x = Some (Inr a, s1) \<and> FetchEach k' g s1 ts' = Some (None, s2)"
  then have f: "Fetch k g s x = Some (Inr a, s1)" and e: "FetchEach k' g s1 ts' = Some (None, s2)"
    by simp_all
  from Fetch_success(1) [OF f] have m: "marks s1 x = Generated a" by simp
  from settles_Generated [OF FetchEach_settles [OF e] m]
  show "Fetch (Suc n) g s2 x = Some (Inr a, s2)" by simp
next
  assume h: "preRunBuild k g opts NewStore = Some (None, p1) \<and> build k g opts = Some (r', p2)"
  then obtain a' where pre: "Fetch k g NewStore EnvConfigId = Some (Inr a', p1)"
    by (auto simp: preRunBuild_def getAssetStore_def assetstore_NewStore_def
        split: option.splits sum.splits)
  from h obtain rr where run: "Fetch k g p1 ApplianceDiskImageId = Some (rr, p2)"
    by (auto simp: build_def runBuild_def getAssetStore_def assetstore_NewStore_def
        split: option.splits sum.splits)
  from Fetch_invokes_target [OF pre] have 1: "EnvConfigId \<in> set (invoked p1)"
    by (simp add: NewStore_facts)
  from Fetch_log_ok(1) [OF pre NewStore_facts(1)] have ok: "log_ok p1" by simp
  from Fetch_log_ok(1) [OF run ok] have d: "distinct (invoked p2)" by simp
  from Fetch_evolves(1) [OF run] obtain l where "invoked p2 = invoked p1 @ l"
    by (auto simp: evolves_def)
  with 1 have "EnvConfigId \<in> set (invoked p2)" by simp
  with d show "count_list (invoked p2) EnvConfigId = 1" by (rule count_list_distinct)
qed

lemma build_graph_each:
  "\<exists>s'. FetchEach 3 build_graph NewStore [EnvConfigId, ApplianceDiskImageId, EnvConfigId]
           = Some (None, s')
        \<and> invoked s' = [EnvConfigId, ApplianceDiskImageId]"
  by (simp add: eval_nat_numeral NewStore_def build_graph_def)

lemma build_graph_build:
  "\<exists>p1 p2. preRunBuild 3 build_graph sample_rootOpts NewStore = Some (None, p1)
      \<and> build 3 build_graph sample_rootOpts = Some (None, p2)
      \<and> invoked p2 = [EnvConfigId, ApplianceDiskImageId]"
  by (simp add: build_def preRunBuild_def runBuild_def getAssetStore_def assetstore_NewStore_def
      eval_nat_numeral NewStore_def build_graph_def)

theorem Fetch_generates_at_most_once_witness:
  "(\<exists>s'. FetchEach 3 build_graph NewStore [EnvConfigId, ApplianceDiskImageId, EnvConfigId]
            = Some (None, s')
         \<and> invoked s' = [EnvConfigId, ApplianceDiskImageId] \<and> distinct (invoked s'))
   \<and> (\<exists>p2. build 3 build_graph sample_rootOpts = Some (None, p2)
         \<and> invoked p2 = [EnvConfigId, ApplianceDiskImageId]
         \<and> count_list (invoked p2) EnvConfigId = 1)"
proof -
  from build_graph_each obtain s' where
    e: "FetchEach 3 build_graph NewStore [EnvConfigId, ApplianceDiskImageId, EnvConfigId]
          = Some (None, s')"
    and i: "invoked s' = [EnvConfigId, ApplianceDiskImageId]" by blast
  from build_graph_build obtain p1 p2 where
    p: "preRunBuild 3 build_graph sample_rootOpts NewStore = Some (None, p1)"
    and b: "build 3 build_graph sample_rootOpts = Some (None, p2)"
    and j: "invoked p2 = [EnvConfigId, ApplianceDiskImageId]" by blast
  from Fetch_generates_at_most_once [of 3 build_graph
      "[EnvConfigId, ApplianceDiskImageId, EnvConfigId]" None s' NewStore EnvConfigId
      "''artifact''" p1 3 "[]" p1 0 sample_rootOpts p1 None p2]
    e p b
  have "distinct (invoked s')" "count_list (invoked p2) EnvConfigId = 1"
    by blast+
  with e i b j show ?thesis by blast
qed

text \<open>
  C6, amended. For a finite dependency graph with a cycle reachable from the requested
  target, a Fetch from an empty store with more fuel than the graph has nodes returns
  a failure; no node on a cycle has its generation function invoked; and the failure,
  under the DependencyErrors that wrap it, is a CycleError naming an identity on a
  cycle, or else the GenerationError of a node off every cycle whose generation
  function was invoked and failed.
\<close>

theorem Fetch_cycle_fails:
  "finite V \<and> (\<forall>x \<in> V. set (dependencies_of g x) \<subseteq> V) \<and> target \<in> V \<and> card V < k
   \<and> (target, c) \<in> (dep_rel g)\<^sup>* \<and> on_cycle g c
   \<longrightarrow> (\<exists>e s1. Fetch k g NewStore target = Some (Inl e, s1)
          \<and> (\<forall>x \<in> set (invoked s1). \<not> on_cycle g x)
          \<and> ((\<exists>y. root_cause e = CycleError y \<and> on_cycle g y)
              \<or> (\<exists>x as why. root_cause e = GenerationError x why
                    \<and> generate g x as = Inl why \<and> \<not> on_cycle g x)))"
proof (intro impI, elim conjE)
  assume fin: "finite V" and closed: "\<forall>x \<in> V. set (dependencies_of g x) \<subseteq> V"
    and tV: "target \<in> V" and fuel: "card V < k"
    and reach: "(target, c) \<in> (dep_rel g)\<^sup>*" and cyc: "on_cycle g c"
  let ?s = "NewStore :: ('a, 'b) Orchestrator"
  from fuel have "card (fresh_nodes V ?s) < k" by (simp add: NewStore_facts)
  from Fetch_enough_fuel(1) [OF fin closed tV this]
  obtain r s1 where f: "Fetch k g ?s target = Some (r, s1)" by auto
  from Fetch_sound(1) [OF f NewStore_facts(2)] have snd: "sound g s1" .
  have "\<exists>e. r = Inl e"
  proof (cases r)
    case (Inl e)
    then show ?thesis by simp
  next
    case (Inr a)
    from Fetch_success(1) [OF f [unfolded Inr]] have "marks s1 target = Generated a" by simp
    from sound_reach [OF snd reach this] obtain b where "marks s1 c = Generated b" ..
    from sound_acyclic [OF snd this] cyc show ?thesis by simp
  qed
  then obtain e where r: "r = Inl e" ..
  from snd have inv: "\<forall>x \<in> set (invoked s1). \<not> on_cycle g x" by (simp add: sound_def)
  have stk: "\<forall>x. marks ?s x = InProgress \<longrightarrow> (x, target) \<in> (dep_rel g)\<^sup>+"
    by (simp add: NewStore_facts)
  from Fetch_root_cause(1) [OF f [unfolded r]]
  have "(\<exists>y. root_cause e = CycleError y \<and> on_cycle g y)
      \<or> (\<exists>x as why. root_cause e = GenerationError x why
            \<and> generate g x as = Inl why \<and> \<not> on_cycle g x)"
  proof
    assume "\<exists>y. root_cause e = CycleError y"
    then obtain y where y: "root_cause e = CycleError y" ..
    from Fetch_cycle_named(1) [OF f [unfolded r] stk y] y show ?thesis by blast
  next
    assume "\<exists>x as why. root_cause e = GenerationError x why \<and> generate g x as = Inl why"
    then obtain x as why where x: "root_cause e = GenerationError x why" "generate g x as = Inl why"
      by blast
    from Fetch_generation_error_invoked(1) [OF f [unfolded r] x(1)] inv
    have "\<not> on_cycle g x" by simp
    with x show ?thesis by blast
  qed
  with f r inv show "\<exists>e s1. Fetch k g NewStore target = Some (Inl e, s1)
          \<and> (\<forall>x \<in> set (invoked s1). \<not> on_cycle g x)
          \<and> ((\<exists>y. root_cause e = CycleError y \<and> on_cycle g y)
              \<or> (\<exists>x as why. root_cause e = GenerationError x why
                    \<and> generate g x as = Inl why \<and> \<not> on_cycle g x))"
    by blast
qed

lemma cyclic_graph_cycle: "on_cycle cyclic_graph ''A''"
proof -
  have "(''A'', ''B'') \<in> dep_rel cyclic_graph" "(''B'', ''A'') \<in> dep_rel cyclic_graph"
    by (simp_all add: dep_rel_def cyclic_graph_def)
  then show ?thesis unfolding on_cycle_def by (rule trancl_trans [OF r_into_trancl r_into_trancl])
qed

lemma failing_graph_cycle:
  "(''T'', ''A'') \<in> (dep_rel failing_graph)\<^sup>*" "on_cycle failing_graph ''A''"
proof -
  have e: "(''T'', ''A'') \<in> dep_rel failing_graph"
    "(''A'', ''B'') \<in> dep_rel failing_graph" "(''B'', ''A'') \<in> dep_rel failing_graph"
    by (simp_all add: dep_rel_def failing_graph_def)
  from e(1) show "(''T'', ''A'') \<in> (dep_rel failing_graph)\<^sup>*" by (rule r_into_rtrancl)
  from e(2,3) show "on_cycle failing_graph ''A''"
    unfolding on_cycle_def by (rule trancl_trans [OF r_into_trancl r_into_trancl])
qed

theorem Fetch_cycle_fails_witness:
  "\<exists>e s1. Fetch 3 cyclic_graph NewStore ''A'' = Some (Inl e, s1)
      \<and> (\<forall>x \<in> set (invoked s1). \<not> on_cycle cyclic_graph x)
      \<and> (\<exists>y. root_cause e = CycleError y \<and> on_cycle cyclic_graph y)"
proof -
  have fin: "finite {''A'', ''B''}" by simp
  have closed: "\<forall>x \<in> {''A'', ''B''}. set (dependencies_of cyclic_graph x) \<subseteq> {''A'', ''B''}"
    by (simp add: cyclic_graph_def)
  have card: "card {''A'', ''B''} < (3::nat)" by simp
  have nofail: "generate cyclic_graph x as \<noteq> Inl why" for x as why
    by (simp add: cyclic_graph_def)
  from Fetch_cycle_fails [of "{''A'', ''B''}" cyclic_graph "''A''" 3 "''A''"]
    fin closed card cyclic_graph_cycle nofail
  show ?thesis by auto
qed

text \<open>
  C6, as stated, fails: T depends on X and on A, A and B depend on each other, and X
  fails to generate. The cycle is reachable from T, yet the Fetch of T fails with the
  GenerationError of X, not with a CycleError.
\<close>

theorem Fetch_generation_failure_before_cycle:
  "(''T'', ''A'') \<in> (dep_rel failing_graph)\<^sup>* \<and> on_cycle failing_graph ''A''
   \<and> map_option fst (Fetch 5 failing_graph NewStore ''T'')
       = Some (Inl (DependencyError ''T'' (GenerationError ''X'' ''invalid input'')))
   \<and> root_cause (DependencyError ''T'' (GenerationError ''X'' ''invalid input''))
       = GenerationError ''X'' ''invalid input''"
  by (simp add: failing_graph_cycle) (simp add: eval_nat_numeral NewStore_def failing_graph_def)

end
